theory Spec2Isabelle
  imports Main
begin

section \<open>Data model (types.ts)\<close>

text \<open>
  Timestamps are the strings \<^verbatim>\<open>new Date().toISOString()\<close> yields; the model keeps the
  millisecond count they denote, which is what \<^verbatim>\<open>new Date(s).getTime()\<close> reads back.
  The clock is an argument \<open>now\<close> of every operation that reads it; the readings taken
  within one call are taken to be equal.
\<close>

type_synonym timestamp = int

datatype TaskType = Element | Page | Region

record Rect =
  rect_x :: int
  rect_y :: int
  rect_width :: int
  rect_height :: int

record ElementInfo =
  el_component :: string
  el_sourceFile :: string
  el_sourceLine :: int
  selector :: string
  el_rect :: "Rect option"
  computedStyles :: "(string \<times> string) list option"

record PageInfo =
  pg_component :: string
  pg_sourceFile :: string
  pg_sourceLine :: "int option"

record RegionInfo =
  rg_rect :: Rect

record TaskAttempt =
  at_agentNotes :: string
  at_filesModified :: "string list"
  retryReason :: string
  at_afterScreenshot :: "string option"
  at_timestamp :: timestamp

text \<open>
  \<open>TaskStatus\<close>, \<open>TaskPriority\<close> and \<open>TaskCategory\<close> are unions of string literals; at
  run time each is a string. \<open>updateTask\<close> checks a status against \<open>VALID_STATUSES\<close> itself,
  and nothing checks a priority or a category: \<open>addTask\<close> stores the ones it is given and
  \<open>updateTask\<close> lets both keys through its allow-list with any value. So the model keeps
  the three as strings. A \<open>type\<close> is set by \<open>addTask\<close> alone and read by nothing modelled here.
  The field \<open>id\<close> is \<open>task_id\<close> and \<open>type\<close> is \<open>task_type\<close> here.
\<close>

record Task =
  task_id :: string
  createdAt :: timestamp
  updatedAt :: timestamp
  url :: string
  task_type :: TaskType
  "note" :: string
  category :: string
  priority :: string
  status :: string
  screenshotPath :: string
  element :: "ElementInfo option"
  page :: PageInfo
  region :: "RegionInfo option"
  agentNotes :: string
  filesModified :: "string list"
  afterScreenshot :: "string option"
  attempts :: "TaskAttempt list"

record Queue =
  version :: int
  lastUpdated :: timestamp
  items :: "Task list"

record ActivityEntry =
  ac_timestamp :: timestamp
  ac_type :: string
  summary :: string

section \<open>The review directory\<close>

text \<open>
  The files the queue manager touches, and what they hold. A file's text is kept up to
  JSON encoding: \<open>Json q\<close> is the text \<^verbatim>\<open>JSON.stringify\<close> writes for the document \<open>q\<close>,
  which \<^verbatim>\<open>JSON.parse\<close> reads back as \<open>q\<close>; \<open>Corrupt s\<close> is a text \<^verbatim>\<open>JSON.parse\<close>
  rejects; \<open>Bytes bs\<close> is a binary file. A file that exists and cannot be read behaves as
  a corrupt one. The file system carries out every write, copy and rename whose source
  exists: the operations fail only as the state of the directory makes them fail.
\<close>

datatype path = QueuePath | BackupPath | TmpPath | Screenshot string

datatype content = Json Queue | Corrupt string | Bytes "nat list"

type_synonym disk = "path \<Rightarrow> content option"

datatype error =
    ENOENT path
  | SyntaxError
  | InvalidStatus string
  | InvalidScreenshot
  | NoValidBackup

definition readFile :: "path \<Rightarrow> disk \<Rightarrow> error + content" where
  "readFile p d = (case d p of None \<Rightarrow> Inl (ENOENT p) | Some c \<Rightarrow> Inr c)"

definition existsSync :: "path \<Rightarrow> disk \<Rightarrow> bool" where
  "existsSync p d = (case d p of None \<Rightarrow> False | Some c \<Rightarrow> True)"

definition writeFile :: "path \<Rightarrow> content \<Rightarrow> disk \<Rightarrow> error + disk" where
  "writeFile p c d = Inr (d(p \<mapsto> c))"

definition copyFile :: "path \<Rightarrow> path \<Rightarrow> disk \<Rightarrow> error + disk" where
  "copyFile src dst d = (case d src of None \<Rightarrow> Inl (ENOENT src) | Some c \<Rightarrow> Inr (d(dst \<mapsto> c)))"

definition rename :: "path \<Rightarrow> path \<Rightarrow> disk \<Rightarrow> error + disk" where
  "rename src dst d =
     (case d src of None \<Rightarrow> Inl (ENOENT src) | Some c \<Rightarrow> Inr ((d(src := None))(dst \<mapsto> c)))"

definition JSON_parse :: "content \<Rightarrow> error + Queue" where
  "JSON_parse c = (case c of Json q \<Rightarrow> Inr q | Corrupt s \<Rightarrow> Inl SyntaxError | Bytes bs \<Rightarrow> Inl SyntaxError)"

definition JSON_stringify :: "Queue \<Rightarrow> content" where
  "JSON_stringify q = Json q"

section \<open>QueueManager (server/queue.ts)\<close>

definition emptyQueue :: "timestamp \<Rightarrow> Queue" where
  "emptyQueue now = \<lparr>version = 1, lastUpdated = now, items = []\<rparr>"

text \<open>
  \<open>read\<close>: the outer \<^verbatim>\<open>try\<close> reads and parses the primary file. Its \<^verbatim>\<open>catch\<close> tries the
  backup inside a second \<^verbatim>\<open>try\<close> (read, parse, rewrite the primary from the backup's
  text), whose \<^verbatim>\<open>catch\<close> is empty; what is left returns \<open>emptyQueue\<close> on either side of
  the last \<^verbatim>\<open>existsSync\<close>. The result pairs what the call returns or throws with
  the directory it leaves. \<open>NoValidBackup\<close> is thrown by nothing: it stands for the
  backup file not being there, which skips the second \<^verbatim>\<open>try\<close>.
\<close>

definition read_primary :: "disk \<Rightarrow> error + Queue" where
  "read_primary d = (case readFile QueuePath d of Inl e \<Rightarrow> Inl e | Inr data \<Rightarrow> JSON_parse data)"

definition read_backup :: "disk \<Rightarrow> error + (Queue \<times> disk)" where
  "read_backup d =
     (case readFile BackupPath d of
        Inl e \<Rightarrow> Inl e
      | Inr backup \<Rightarrow>
          (case JSON_parse backup of
             Inl e \<Rightarrow> Inl e
           | Inr queue \<Rightarrow>
               (case writeFile QueuePath backup d of
                  Inl e \<Rightarrow> Inl e
                | Inr d' \<Rightarrow> Inr (queue, d'))))"

definition read :: "timestamp \<Rightarrow> disk \<Rightarrow> (error + Queue) \<times> disk" where
  "read now d =
     (case read_primary d of
        Inr queue \<Rightarrow> (Inr queue, d)
      | Inl e \<Rightarrow>
          (case (if existsSync BackupPath d then read_backup d else Inl NoValidBackup) of
             Inr (queue, d') \<Rightarrow> (Inr queue, d')
           | Inl e' \<Rightarrow>
               (if \<not> existsSync QueuePath d then (Inr (emptyQueue now), d)
                else (Inr (emptyQueue now), d))))"

text \<open>
  \<open>write_queue\<close> is the method \<open>write\<close>: stamp the document, copy the primary onto the
  backup when the primary exists (a failed copy is swallowed), write the temporary file,
  rename it over the primary. A failure of the last two is thrown.
\<close>

definition write_queue :: "timestamp \<Rightarrow> Queue \<Rightarrow> disk \<Rightarrow> (error + unit) \<times> disk" where
  "write_queue now queue d =
     (let data = JSON_stringify (queue\<lparr>lastUpdated := now\<rparr>);
          d1 = (if existsSync QueuePath d
                then (case copyFile QueuePath BackupPath d of Inl e \<Rightarrow> d | Inr d' \<Rightarrow> d')
                else d)
      in case writeFile TmpPath data d1 of
           Inl e \<Rightarrow> (Inl e, d1)
         | Inr d2 \<Rightarrow>
             (case rename TmpPath QueuePath d2 of
                Inl e \<Rightarrow> (Inl e, d2)
              | Inr d3 \<Rightarrow> (Inr (), d3)))"

text \<open>A file is unreadable when reading it fails, or parsing what was read does.\<close>

definition unreadable :: "path \<Rightarrow> disk \<Rightarrow> bool" where
  "unreadable p d =
     (case readFile p d of
        Inl e \<Rightarrow> True
      | Inr c \<Rightarrow> (case JSON_parse c of Inl e \<Rightarrow> True | Inr q \<Rightarrow> False))"

subsection \<open>Constants and update payloads\<close>

text \<open>
  \<open>PRIORITY_ORDER\<close> is an object read at the key \<^verbatim>\<open>task.priority\<close>, which is any string.
  At a key other than its three own ones the read yields \<^verbatim>\<open>undefined\<close> (or a member of
  \<^verbatim>\<open>Object.prototype\<close>), never a number: that is \<open>None\<close>.
\<close>

definition PRIORITY_ORDER :: "string \<Rightarrow> int option" where
  "PRIORITY_ORDER p = map_of [(''high'', 0), (''medium'', 1), (''low'', 2)] p"

definition VALID_STATUSES :: "string list" where
  "VALID_STATUSES = [''pending'', ''in_progress'', ''review'', ''done'']"

definition VALID_UPDATE_FIELDS :: "string list" where
  "VALID_UPDATE_FIELDS =
     [''status'', ''agentNotes'', ''filesModified'', ''afterScreenshot'', ''attempts'',
      ''note'', ''category'', ''priority'']"

text \<open>
  An update payload is the list of its entries, in the order \<^verbatim>\<open>Object.entries\<close> yields
  them. An entry is a field of \<open>Task\<close> with a value of that field's type, or a key that
  \<open>Task\<close> does not have (\<open>F_other\<close>). The value of \<open>status\<close> is any string, since
  \<open>updateTask\<close> checks it at run time; a status that is not a string fails that check
  as an unknown string does; a priority and a category are any strings as well, and are
  stored as they come. \<open>key\<close> is the entry's property name and \<open>assign\<close> is what
  \<^verbatim>\<open>Object.assign\<close> does with it; a key \<open>Task\<close> does not have has no field to land in.
\<close>

datatype field =
    F_id string
  | F_createdAt timestamp
  | F_updatedAt timestamp
  | F_url string
  | F_type TaskType
  | F_note string
  | F_category string
  | F_priority string
  | F_status string
  | F_screenshotPath string
  | F_element "ElementInfo option"
  | F_page PageInfo
  | F_region "RegionInfo option"
  | F_agentNotes string
  | F_filesModified "string list"
  | F_afterScreenshot "string option"
  | F_attempts "TaskAttempt list"
  | F_other string

fun key :: "field \<Rightarrow> string" where
  "key (F_id v) = ''id''"
| "key (F_createdAt v) = ''createdAt''"
| "key (F_updatedAt v) = ''updatedAt''"
| "key (F_url v) = ''url''"
| "key (F_type v) = ''type''"
| "key (F_note v) = ''note''"
| "key (F_category v) = ''category''"
| "key (F_priority v) = ''priority''"
| "key (F_status v) = ''status''"
| "key (F_screenshotPath v) = ''screenshotPath''"
| "key (F_element v) = ''element''"
| "key (F_page v) = ''page''"
| "key (F_region v) = ''region''"
| "key (F_agentNotes v) = ''agentNotes''"
| "key (F_filesModified v) = ''filesModified''"
| "key (F_afterScreenshot v) = ''afterScreenshot''"
| "key (F_attempts v) = ''attempts''"
| "key (F_other k) = k"

fun assign :: "field \<Rightarrow> Task \<Rightarrow> Task" where
  "assign (F_id v) t = t\<lparr>task_id := v\<rparr>"
| "assign (F_createdAt v) t = t\<lparr>createdAt := v\<rparr>"
| "assign (F_updatedAt v) t = t\<lparr>updatedAt := v\<rparr>"
| "assign (F_url v) t = t\<lparr>url := v\<rparr>"
| "assign (F_type v) t = t\<lparr>task_type := v\<rparr>"
| "assign (F_note v) t = t\<lparr>note := v\<rparr>"
| "assign (F_category v) t = t\<lparr>category := v\<rparr>"
| "assign (F_priority v) t = t\<lparr>priority := v\<rparr>"
| "assign (F_status v) t = t\<lparr>status := v\<rparr>"
| "assign (F_screenshotPath v) t = t\<lparr>screenshotPath := v\<rparr>"
| "assign (F_element v) t = t\<lparr>element := v\<rparr>"
| "assign (F_page v) t = t\<lparr>page := v\<rparr>"
| "assign (F_region v) t = t\<lparr>region := v\<rparr>"
| "assign (F_agentNotes v) t = t\<lparr>agentNotes := v\<rparr>"
| "assign (F_filesModified v) t = t\<lparr>filesModified := v\<rparr>"
| "assign (F_afterScreenshot v) t = t\<lparr>afterScreenshot := v\<rparr>"
| "assign (F_attempts v) t = t\<lparr>attempts := v\<rparr>"
| "assign (F_other k) t = t"

text \<open>
  \<open>updateTask\<close>: read, find the index (\<open>None\<close> for \<open>-1\<close>), keep the entries whose key is in
  \<open>VALID_UPDATE_FIELDS\<close>, throw when the kept \<open>status\<close> (the last one, if the payload
  repeats the key) is not in \<open>VALID_STATUSES\<close>, else assign the kept entries and
  \<open>updatedAt\<close> to the task in place and write the document.
\<close>

definition allowed :: "field \<Rightarrow> bool" where
  "allowed f = (key f \<in> set VALID_UPDATE_FIELDS)"

fun status_entry :: "field list \<Rightarrow> string option" where
  "status_entry [] = None"
| "status_entry (f # fs) =
     (case status_entry fs of
        Some s \<Rightarrow> Some s
      | None \<Rightarrow> (case f of F_status s \<Rightarrow> Some s | _ \<Rightarrow> None))"

fun findIndex :: "('a \<Rightarrow> bool) \<Rightarrow> 'a list \<Rightarrow> nat option" where
  "findIndex P [] = None"
| "findIndex P (x # xs) = (if P x then Some 0 else map_option Suc (findIndex P xs))"

definition updateTask :: "timestamp \<Rightarrow> string \<Rightarrow> field list \<Rightarrow> disk \<Rightarrow> (error + Task option) \<times> disk" where
  "updateTask now tid updates d =
     (case read now d of
        (Inl e, d1) \<Rightarrow> (Inl e, d1)
      | (Inr queue, d1) \<Rightarrow>
          (case findIndex (\<lambda>t. task_id t = tid) (items queue) of
             None \<Rightarrow> (Inr None, d1)
           | Some index \<Rightarrow>
               (let task = items queue ! index;
                    filtered = filter allowed updates
                in if (case status_entry filtered of
                         None \<Rightarrow> False
                       | Some s \<Rightarrow> s \<notin> set VALID_STATUSES)
                   then (Inl (InvalidStatus (the (status_entry filtered))), d1)
                   else
                     (let task' = (fold assign filtered task)\<lparr>updatedAt := now\<rparr>;
                          queue' = queue\<lparr>items := (items queue)[index := task']\<rparr>
                      in case write_queue now queue' d1 of
                           (Inl e, d2) \<Rightarrow> (Inl e, d2)
                         | (Inr u, d2) \<Rightarrow> (Inr (Some task'), d2)))))"

subsection \<open>Selecting the next task\<close>

text \<open>
  The comparator passed to \<^verbatim>\<open>sort\<close>: the difference of the priority tiers, and of the
  creation times when that difference is zero. A number the comparator computes is an
  integer or \<^verbatim>\<open>NaN\<close> (\<open>None\<close>): \<open>subtract\<close> is the operator \<^verbatim>\<open>-\<close>, whose result is
  \<^verbatim>\<open>NaN\<close> as soon as an operand is not a number, and \<^verbatim>\<open>NaN !== 0\<close> holds, so that
  \<^verbatim>\<open>NaN\<close> is returned as it is.
\<close>

definition subtract :: "int option \<Rightarrow> int option \<Rightarrow> int option" where
  "subtract a b = (case a of None \<Rightarrow> None | Some x \<Rightarrow> (case b of None \<Rightarrow> None | Some y \<Rightarrow> Some (x - y)))"

definition compare_tasks :: "Task \<Rightarrow> Task \<Rightarrow> int option" where
  "compare_tasks a b =
     (let pd = subtract (PRIORITY_ORDER (priority a)) (PRIORITY_ORDER (priority b))
      in if pd \<noteq> Some 0 then pd else Some (createdAt a - createdAt b))"

text \<open>
  \<^verbatim>\<open>Array.prototype.sort\<close> reads what the comparator returns through
  \<open>CompareArrayElements\<close>, which takes \<^verbatim>\<open>NaN\<close> for \<open>+0\<close>, and sorts by the sign of the
  result. It is stable, so when the comparator orders the elements consistently the
  result is the one of \<open>sort_by\<close>, the stable insertion sort. When it does not, the
  standard leaves the order to the engine; \<open>sort_by\<close> is then one such order, and on a
  list whose neighbours all compare as equal it keeps the list as it is, as a sort that
  looks for runs of neighbours in order (the one of V8, which Node runs) does.
\<close>

definition CompareArrayElements :: "('a \<Rightarrow> 'a \<Rightarrow> int option) \<Rightarrow> 'a \<Rightarrow> 'a \<Rightarrow> int" where
  "CompareArrayElements comparefn x y = (case comparefn x y of None \<Rightarrow> 0 | Some v \<Rightarrow> v)"

fun insert_by :: "('a \<Rightarrow> 'a \<Rightarrow> int) \<Rightarrow> 'a \<Rightarrow> 'a list \<Rightarrow> 'a list" where
  "insert_by cmp a [] = [a]"
| "insert_by cmp a (b # bs) = (if cmp a b \<le> 0 then a # b # bs else b # insert_by cmp a bs)"

definition sort_by :: "('a \<Rightarrow> 'a \<Rightarrow> int) \<Rightarrow> 'a list \<Rightarrow> 'a list" where
  "sort_by cmp as = foldr (insert_by cmp) as []"

definition getNextPending :: "timestamp \<Rightarrow> disk \<Rightarrow> (error + Task option) \<times> disk" where
  "getNextPending now d =
     (case read now d of
        (Inl e, d1) \<Rightarrow> (Inl e, d1)
      | (Inr queue, d1) \<Rightarrow>
          (let pending = sort_by (CompareArrayElements compare_tasks)
                           (filter (\<lambda>t. status t = ''pending'') (items queue))
           in (Inr (case pending of [] \<Rightarrow> None | t # ts \<Rightarrow> Some t), d1)))"

text \<open>\<open>first_least\<close> is used in the proofs only: the head of the sorted list is the first least
  element of the input, in input order (\<open>sort_by_head\<close>).\<close>

fun first_least :: "('a \<Rightarrow> 'a \<Rightarrow> int) \<Rightarrow> 'a list \<Rightarrow> 'a option" where
  "first_least cmp [] = None"
| "first_least cmp (a # as) =
     (case first_least cmp as of
        None \<Rightarrow> Some a
      | Some b \<Rightarrow> if cmp a b \<le> 0 then Some a else Some b)"

subsection \<open>Screenshots\<close>

text \<open>
  \<^verbatim>\<open>Buffer.from(s, "base64")\<close>: each character of the base64 alphabet gives six bits,
  four of them three bytes. The decoder of Node reads the characters \<^verbatim>\<open>-\<close> and \<^verbatim>\<open>_\<close> of
  the URL-safe alphabet as 62 and 63, stops at the first \<^verbatim>\<open>=\<close>, and passes over any
  other character.
\<close>

fun index_of :: "'a \<Rightarrow> 'a list \<Rightarrow> nat option" where
  "index_of c [] = None"
| "index_of c (a # as) = (if c = a then Some 0 else map_option Suc (index_of c as))"

definition base64_alphabet :: string where
  "base64_alphabet = ''ABCDEFGHIJKLMNOPQRSTUVWXYZabcdefghijklmnopqrstuvwxyz0123456789+/''"

definition unbase64 :: "char \<Rightarrow> nat option" where
  "unbase64 c =
     (if c = CHR ''-'' then Some 62 else if c = CHR ''_'' then Some 63
      else index_of c base64_alphabet)"

fun sextets :: "string \<Rightarrow> nat list" where
  "sextets [] = []"
| "sextets (c # cs) =
     (case unbase64 c of
        Some v \<Rightarrow> v # sextets cs
      | None \<Rightarrow> if c = CHR ''='' then [] else sextets cs)"

fun octets :: "nat list \<Rightarrow> nat list" where
  "octets (a # b # c # d # rest) =
     (a * 4 + b div 16) # ((b mod 16) * 16 + c div 4) # ((c mod 4) * 64 + d) # octets rest"
| "octets [a, b, c] = [a * 4 + b div 16, (b mod 16) * 16 + c div 4]"
| "octets [a, b] = [a * 4 + b div 16]"
| "octets [a] = []"
| "octets [] = []"

definition Buffer_from_base64 :: "string \<Rightarrow> nat list" where
  "Buffer_from_base64 s = octets (sextets s)"

text \<open>An index past the end of the buffer reads \<^verbatim>\<open>undefined\<close>, which equals no byte.\<close>

definition isValidPngBase64 :: "string \<Rightarrow> bool" where
  "isValidPngBase64 data =
     (if data = [] \<or> length data < 16 then False
      else (case Buffer_from_base64 (take 16 data) of
              b0 # b1 # b2 # b3 # rest \<Rightarrow> b0 = 0x89 \<and> b1 = 0x50 \<and> b2 = 0x4e \<and> b3 = 0x47
            | _ \<Rightarrow> False))"

text \<open>
  \<open>saveAfterScreenshot\<close>: \<^verbatim>\<open>find\<close> yields the first task with the id, which is then
  changed in place, so the document holds the changed task at that index. The directories
  \<open>ensureDirs\<close> makes are not part of the model.
\<close>

definition saveAfterScreenshot ::
  "timestamp \<Rightarrow> string \<Rightarrow> string \<Rightarrow> disk \<Rightarrow> (error + Task option) \<times> disk" where
  "saveAfterScreenshot now tid screenshotBase64 d =
     (if \<not> isValidPngBase64 screenshotBase64 then (Inl InvalidScreenshot, d)
      else
        (case read now d of
           (Inl e, d1) \<Rightarrow> (Inl e, d1)
         | (Inr queue, d1) \<Rightarrow>
             (case findIndex (\<lambda>t. task_id t = tid) (items queue) of
                None \<Rightarrow> (Inr None, d1)
              | Some index \<Rightarrow>
                  (let filename = tid @ ''-after.png'' in
                   case writeFile (Screenshot filename) (Bytes (Buffer_from_base64 screenshotBase64)) d1 of
                     Inl e \<Rightarrow> (Inl e, d1)
                   | Inr d2 \<Rightarrow>
                       (let task' = (items queue ! index)
                              \<lparr>afterScreenshot := Some (''.review/screenshots/'' @ filename),
                               updatedAt := now\<rparr>;
                            queue' = queue\<lparr>items := (items queue)[index := task']\<rparr>
                        in case write_queue now queue' d2 of
                             (Inl e, d3) \<Rightarrow> (Inl e, d3)
                           | (Inr u, d3) \<Rightarrow> (Inr (Some task'), d3))))))"

definition getTask :: "timestamp \<Rightarrow> string \<Rightarrow> disk \<Rightarrow> (error + Task option) \<times> disk" where
  "getTask now tid d =
     (case read now d of
        (Inl e, d1) \<Rightarrow> (Inl e, d1)
      | (Inr queue, d1) \<Rightarrow> (Inr (find (\<lambda>t. task_id t = tid) (items queue)), d1))"

section \<open>The server (server/index.ts)\<close>

text \<open>
  The state of \<open>createServer\<close>: the review directory behind its \<open>QueueManager\<close>, the
  map \<open>taskActivity\<close>, and what \<open>broadcast\<close> has written to the subscribers (event name and
  payload, oldest first). A route handler takes the request's parameters and yields the
  response (status code and JSON body) with the new state. \<open>asyncHandler\<close> passes what a
  handler throws to the error handler, which answers 500 with the error's message.
\<close>

datatype body =
    TaskJson Task
  | NullJson
  | ErrorJson string
  | EntriesJson "ActivityEntry list"

datatype sse_data = TaskData Task | IdData string | ActivityData string ActivityEntry

record server =
  files :: disk
  taskActivity :: "string \<Rightarrow> ActivityEntry list option"
  sent :: "(string \<times> sse_data) list"

definition broadcast :: "string \<Rightarrow> sse_data \<Rightarrow> server \<Rightarrow> server" where
  "broadcast event dat srv = srv\<lparr>sent := sent srv @ [(event, dat)]\<rparr>"

text \<open>\<open>join\<close> is \<^verbatim>\<open>Array.prototype.join\<close>; \<open>message\<close> is the text of a thrown error.\<close>

fun join :: "string \<Rightarrow> string list \<Rightarrow> string" where
  "join sep [] = []"
| "join sep [a] = a"
| "join sep (a # b # bs) = a @ sep @ join sep (b # bs)"

fun message :: "error \<Rightarrow> string" where
  "message (InvalidStatus s) =
     ''Invalid status: '' @ s @ ''. Must be one of: '' @ join '', '' VALID_STATUSES"
| "message InvalidScreenshot = ''Invalid screenshot: not a valid base64-encoded PNG''"
| "message (ENOENT p) = ''ENOENT''"
| "message SyntaxError = ''SyntaxError''"
| "message NoValidBackup = ''NoValidBackup''"

text \<open>
  Modelled from the spec: \<open>VALID_ACTIVITY_TYPES\<close> is imported from \<open>queue.ts\<close>, which does
  not declare it; these are the kinds of an Activity Entry the spec and \<open>types.ts\<close> list.
\<close>

definition VALID_ACTIVITY_TYPES :: "string list" where
  "VALID_ACTIVITY_TYPES = [''tool_start'', ''tool_end'', ''text'', ''error'', ''result'']"

definition get_next :: "timestamp \<Rightarrow> server \<Rightarrow> (nat \<times> body) \<times> server" where
  "get_next now srv =
     (case getNextPending now (files srv) of
        (Inl e, d) \<Rightarrow> ((500, ErrorJson (message e)), srv\<lparr>files := d\<rparr>)
      | (Inr None, d) \<Rightarrow> ((200, NullJson), srv\<lparr>files := d\<rparr>)
      | (Inr (Some task), d) \<Rightarrow> ((200, TaskJson task), srv\<lparr>files := d\<rparr>))"

definition put_task :: "timestamp \<Rightarrow> string \<Rightarrow> field list \<Rightarrow> server \<Rightarrow> (nat \<times> body) \<times> server" where
  "put_task now tid updates srv =
     (if (case status_entry updates of None \<Rightarrow> False | Some s \<Rightarrow> s \<notin> set VALID_STATUSES)
      then ((400, ErrorJson (''Invalid status: '' @ the (status_entry updates) @
                             ''. Must be one of: '' @ join '', '' VALID_STATUSES)), srv)
      else
        (case updateTask now tid updates (files srv) of
           (Inl e, d) \<Rightarrow> ((500, ErrorJson (message e)), srv\<lparr>files := d\<rparr>)
         | (Inr None, d) \<Rightarrow> ((404, ErrorJson ''Task not found''), srv\<lparr>files := d\<rparr>)
         | (Inr (Some task), d) \<Rightarrow>
             (let srv1 = broadcast ''task_updated'' (TaskData task) (srv\<lparr>files := d\<rparr>);
                  srv2 = (if status task \<noteq> ''in_progress''
                          then srv1\<lparr>taskActivity := (taskActivity srv1)(tid := None)\<rparr>
                          else srv1)
              in ((200, TaskJson task), srv2))))"

definition after_screenshot :: "timestamp \<Rightarrow> string \<Rightarrow> string \<Rightarrow> server \<Rightarrow> (nat \<times> body) \<times> server" where
  "after_screenshot now tid screenshot srv =
     (if screenshot = [] then ((400, ErrorJson ''screenshot is required''), srv)
      else
        (case saveAfterScreenshot now tid screenshot (files srv) of
           (Inl e, d) \<Rightarrow> ((500, ErrorJson (message e)), srv\<lparr>files := d\<rparr>)
         | (Inr None, d) \<Rightarrow> ((404, ErrorJson ''Task not found''), srv\<lparr>files := d\<rparr>)
         | (Inr (Some task), d) \<Rightarrow>
             ((200, TaskJson task), broadcast ''task_updated'' (TaskData task) (srv\<lparr>files := d\<rparr>))))"

definition post_activity ::
  "timestamp \<Rightarrow> string \<Rightarrow> string \<Rightarrow> string \<Rightarrow> server \<Rightarrow> (nat \<times> body) \<times> server" where
  "post_activity now tid type summ srv =
     (case getTask now tid (files srv) of
        (Inl e, d) \<Rightarrow> ((500, ErrorJson (message e)), srv\<lparr>files := d\<rparr>)
      | (Inr None, d) \<Rightarrow> ((404, ErrorJson ''Task not found''), srv\<lparr>files := d\<rparr>)
      | (Inr (Some task), d) \<Rightarrow>
          (if type = [] \<or> type \<notin> set VALID_ACTIVITY_TYPES
           then ((400, ErrorJson (''Invalid activity type: '' @ type @
                                  ''. Must be one of: '' @ join '', '' VALID_ACTIVITY_TYPES)),
                 srv\<lparr>files := d\<rparr>)
           else
             (let entry = \<lparr>ac_timestamp = now, ac_type = type, summary = summ\<rparr>;
                  entries = (case taskActivity srv tid of None \<Rightarrow> [] | Some es \<Rightarrow> es) @ [entry];
                  srv1 = srv\<lparr>files := d, taskActivity := (taskActivity srv)(tid \<mapsto> entries)\<rparr>
              in ((200, EntriesJson entries),
                  broadcast ''task_activity'' (ActivityData tid entry) srv1))))"

definition get_activity :: "timestamp \<Rightarrow> string \<Rightarrow> server \<Rightarrow> (nat \<times> body) \<times> server" where
  "get_activity now tid srv =
     (case getTask now tid (files srv) of
        (Inl e, d) \<Rightarrow> ((500, ErrorJson (message e)), srv\<lparr>files := d\<rparr>)
      | (Inr None, d) \<Rightarrow> ((404, ErrorJson ''Task not found''), srv\<lparr>files := d\<rparr>)
      | (Inr (Some task), d) \<Rightarrow>
          ((200, EntriesJson (case taskActivity srv tid of None \<Rightarrow> [] | Some es \<Rightarrow> es)),
           srv\<lparr>files := d\<rparr>))"

definition cancel :: "timestamp \<Rightarrow> string \<Rightarrow> server \<Rightarrow> (nat \<times> body) \<times> server" where
  "cancel now tid srv =
     (case updateTask now tid [F_status ''done''] (files srv) of
        (Inl e, d) \<Rightarrow> ((500, ErrorJson (message e)), srv\<lparr>files := d\<rparr>)
      | (Inr None, d) \<Rightarrow> ((404, ErrorJson ''Task not found''), srv\<lparr>files := d\<rparr>)
      | (Inr (Some task), d) \<Rightarrow>
          (let srv1 = srv\<lparr>files := d, taskActivity := (taskActivity srv)(tid := None)\<rparr>;
               srv2 = broadcast ''task_cancel'' (IdData tid) srv1;
               srv3 = broadcast ''task_updated'' (TaskData task) srv2
           in ((200, TaskJson task), srv3)))"

section \<open>The watcher (watcher.ts)\<close>

text \<open>
  \<open>fetchJSON\<close> rejects when the socket reports an error or the request times out, and
  resolves with the parsed body of whatever response arrives: it never looks at the
  status code. \<open>'a net\<close> is what the network gives a request, \<open>Inl\<close> a rejection.
\<close>

datatype 'a net = Failed string | Responded nat 'a

definition fetchJSON :: "'a net \<Rightarrow> string + 'a" where
  "fetchJSON n = (case n of Failed msg \<Rightarrow> Inl msg | Responded code b \<Rightarrow> Inr b)"

text \<open>
  What the watcher does to the world: the requests it sends, the agent processes it
  spawns and the processes it signals, each with the task's id.
\<close>

datatype request = GET_next | GET_task string | PUT_status string string

datatype effect = Fetch request | Spawn string | Kill string

text \<open>
  \<open>kickProcessing\<close> is an \<^verbatim>\<open>async\<close> function, and \<open>processTask\<close> runs inside it. A call runs
  to its first \<^verbatim>\<open>await\<close>, and goes on when the awaited promise settles; handlers of other
  events run in between. \<open>cont\<close> is where a call of \<open>kickProcessing\<close> waits: for the
  next task, for the claim, for the agent to exit, for the task's state after the exit,
  for the reset to \<open>pending\<close>. The state keeps every waiting call, so that nothing but
  the code's own guard stops a second one.
\<close>

datatype cont =
    AwaitNext
  | AwaitClaim Task
  | AwaitExit Task
  | AwaitVerify Task
  | AwaitReset Task

text \<open>
  The variables of \<open>startWatcher\<close> (\<open>pendingQueue\<close>, \<open>processing\<close>, \<open>currentProcess\<close>,
  \<open>currentTaskId\<close>, \<open>stopped\<close>), the waiting calls, the agent processes spawned and not
  yet exited (by task id), the retry timers set and not yet fired, and the effects so
  far, oldest first. \<open>currentProcess\<close> holds the id of the task its process was spawned for.
\<close>

record watcher =
  pendingQueue :: "string list"
  processing :: bool
  currentProcess :: "string option"
  currentTaskId :: "string option"
  stopped :: bool
  suspended :: "cont list"
  children :: "string list"
  timers :: nat
  effects :: "effect list"

definition kickProcessing :: "watcher \<Rightarrow> watcher" where
  "kickProcessing w =
     (if processing w \<or> stopped w \<or> pendingQueue w = [] then w
      else w\<lparr>processing := True,
             suspended := suspended w @ [AwaitNext],
             effects := effects w @ [Fetch GET_next]\<rparr>)"

definition enqueue :: "string \<Rightarrow> watcher \<Rightarrow> watcher" where
  "enqueue taskId w =
     (if taskId \<notin> set (pendingQueue w) \<and> Some taskId \<noteq> currentTaskId w
      then kickProcessing (w\<lparr>pendingQueue := pendingQueue w @ [taskId]\<rparr>)
      else w)"

text \<open>
  The end of \<open>kickProcessing\<close>: \<open>returned\<close> is a \<^verbatim>\<open>return\<close> inside the \<^verbatim>\<open>try\<close>, which
  runs the \<^verbatim>\<open>finally\<close> block only; \<open>completed\<close> is the \<^verbatim>\<open>try\<close> running to its end,
  after which the code below the \<^verbatim>\<open>finally\<close> block looks at \<open>pendingQueue\<close> again.
\<close>

definition returned :: "watcher \<Rightarrow> watcher" where
  "returned w = w\<lparr>processing := False\<rparr>"

definition completed :: "watcher \<Rightarrow> watcher" where
  "completed w =
     (let w1 = w\<lparr>processing := False\<rparr>
      in if \<not> stopped w1 then (if pendingQueue w1 \<noteq> [] then kickProcessing w1 else w1) else w1)"

definition retry_later :: "watcher \<Rightarrow> watcher" where
  "retry_later w = returned (w\<lparr>timers := Suc (timers w)\<rparr>)"

text \<open>\<open>processTask\<close> up to its first \<^verbatim>\<open>await\<close>, the claim.\<close>

definition processTask :: "Task \<Rightarrow> watcher \<Rightarrow> watcher" where
  "processTask task w =
     w\<lparr>currentTaskId := Some (task_id task),
       effects := effects w @ [Fetch (PUT_status (task_id task) ''in_progress'')],
       suspended := suspended w @ [AwaitClaim task]\<rparr>"

text \<open>
  The test under the comment "Check max retries", whose branch logs that the task has
  reached max retries: the limit is positive and the task has at least that many
  attempts. A limit of zero or less switches the test off.
\<close>

definition reached_max_retries :: "int \<Rightarrow> Task \<Rightarrow> bool" where
  "reached_max_retries maxRetries task =
     (maxRetries > 0 \<and> int (length (attempts task)) \<ge> maxRetries)"

text \<open>
  After the fetch of the next task. A body that is neither a task nor \<^verbatim>\<open>null\<close> has no
  \<open>attempts\<close> and no \<open>page\<close>: reading them throws, which the \<^verbatim>\<open>catch\<close> takes as it takes
  a rejection.
\<close>

definition after_next :: "int \<Rightarrow> body net \<Rightarrow> watcher \<Rightarrow> watcher" where
  "after_next maxRetries r w =
     (case fetchJSON r of
        Inl msg \<Rightarrow> retry_later w
      | Inr NullJson \<Rightarrow> returned (w\<lparr>pendingQueue := []\<rparr>)
      | Inr (TaskJson task) \<Rightarrow>
          (if reached_max_retries maxRetries task
           then returned (w\<lparr>pendingQueue := filter (\<lambda>qid. qid \<noteq> task_id task) (pendingQueue w)\<rparr>)
           else processTask task
                  (w\<lparr>pendingQueue := filter (\<lambda>qid. qid \<noteq> task_id task) (pendingQueue w)\<rparr>))
      | Inr (ErrorJson e) \<Rightarrow> retry_later w
      | Inr (EntriesJson es) \<Rightarrow> retry_later w)"

text \<open>
  After the claim: a rejection ends \<open>processTask\<close>; a resolution, whatever the body,
  goes on to spawn the agent.
\<close>

definition after_claim :: "Task \<Rightarrow> body net \<Rightarrow> watcher \<Rightarrow> watcher" where
  "after_claim task r w =
     (case fetchJSON r of
        Inl msg \<Rightarrow> completed (w\<lparr>currentTaskId := None\<rparr>)
      | Inr b \<Rightarrow>
          w\<lparr>currentProcess := Some (task_id task),
            children := children w @ [task_id task],
            effects := effects w @ [Spawn (task_id task)],
            suspended := suspended w @ [AwaitExit task]\<rparr>)"

text \<open>
  The exit-code promise resolves on the child's \<^verbatim>\<open>close\<close> event, which clears
  \<open>currentProcess\<close>, or on its \<^verbatim>\<open>error\<close> event (the process could not be started), which
  does not. Either way the process is no longer running, and \<open>processTask\<close> asks for the
  task. A \<^verbatim>\<open>close\<close> that follows an \<^verbatim>\<open>error\<close> is not modelled.
\<close>

definition after_exit :: "bool \<Rightarrow> Task \<Rightarrow> watcher \<Rightarrow> watcher" where
  "after_exit closed task w =
     w\<lparr>currentProcess := (if closed then None else currentProcess w),
       children := remove1 (task_id task) (children w),
       effects := effects w @ [Fetch (GET_task (task_id task))],
       suspended := suspended w @ [AwaitVerify task]\<rparr>"

definition finish :: "watcher \<Rightarrow> watcher" where
  "finish w = completed (w\<lparr>currentTaskId := None\<rparr>)"

definition after_verify :: "Task \<Rightarrow> body net \<Rightarrow> watcher \<Rightarrow> watcher" where
  "after_verify task r w =
     (case fetchJSON r of
        Inl msg \<Rightarrow> finish w
      | Inr (TaskJson updated) \<Rightarrow>
          (if status updated = ''review'' then finish w
           else if status updated = ''in_progress''
           then w\<lparr>effects := effects w @ [Fetch (PUT_status (task_id task) ''pending'')],
                  suspended := suspended w @ [AwaitReset task]\<rparr>
           else finish w)
      | Inr NullJson \<Rightarrow> finish w
      | Inr (ErrorJson e) \<Rightarrow> finish w
      | Inr (EntriesJson es) \<Rightarrow> finish w)"

definition after_reset :: "Task \<Rightarrow> body net \<Rightarrow> watcher \<Rightarrow> watcher" where
  "after_reset task r w = finish w"

text \<open>
  The events the watcher reacts to: the four server-sent events it subscribes to, the
  task list \<open>syncAndReconnect\<close> fetched, a retry timer firing, \<open>stop\<close>, and the settling
  of what the waiting call at a position \<open>i\<close> awaits. An event that finds no such call
  changes nothing. \<open>stop\<close> is modelled up to its signal to the running agent.
\<close>

datatype event =
    Sse_task_created Task
  | Sse_task_updated Task
  | Sse_task_deleted string
  | Sse_task_cancel string
  | Resynced "Task list"
  | Timer_fired
  | Stop
  | Next_settled nat "body net"
  | Claim_settled nat "body net"
  | Child_closed nat
  | Child_error nat
  | Verify_settled nat "body net"
  | Reset_settled nat "body net"

fun nth_opt :: "'a list \<Rightarrow> nat \<Rightarrow> 'a option" where
  "nth_opt [] i = None"
| "nth_opt (a # as) 0 = Some a"
| "nth_opt (a # as) (Suc i) = nth_opt as i"

definition resumed :: "nat \<Rightarrow> watcher \<Rightarrow> watcher" where
  "resumed i w = w\<lparr>suspended := take i (suspended w) @ drop (Suc i) (suspended w)\<rparr>"

fun step :: "int \<Rightarrow> event \<Rightarrow> watcher \<Rightarrow> watcher" where
  "step maxRetries (Sse_task_created task) w = enqueue (task_id task) w"
| "step maxRetries (Sse_task_updated task) w =
     (if status task = ''pending'' then enqueue (task_id task) w else w)"
| "step maxRetries (Sse_task_deleted tid) w =
     w\<lparr>pendingQueue := filter (\<lambda>qid. qid \<noteq> tid) (pendingQueue w)\<rparr>"
| "step maxRetries (Sse_task_cancel tid) w =
     (if Some tid = currentTaskId w \<and> currentProcess w \<noteq> None
      then w\<lparr>effects := effects w @ [Kill tid]\<rparr> else w)"
| "step maxRetries (Resynced tasks) w =
     fold (\<lambda>task. enqueue (task_id task)) (filter (\<lambda>t. status t = ''pending'') tasks) w"
| "step maxRetries Timer_fired w =
     (case timers w of 0 \<Rightarrow> w | Suc n \<Rightarrow> kickProcessing (w\<lparr>timers := n\<rparr>))"
| "step maxRetries Stop w =
     w\<lparr>stopped := True,
       effects := effects w @ (case currentProcess w of None \<Rightarrow> [] | Some tid \<Rightarrow> [Kill tid])\<rparr>"
| "step maxRetries (Next_settled i r) w =
     (case nth_opt (suspended w) i of
        Some AwaitNext \<Rightarrow> after_next maxRetries r (resumed i w)
      | _ \<Rightarrow> w)"
| "step maxRetries (Claim_settled i r) w =
     (case nth_opt (suspended w) i of
        Some (AwaitClaim task) \<Rightarrow> after_claim task r (resumed i w)
      | _ \<Rightarrow> w)"
| "step maxRetries (Child_closed i) w =
     (case nth_opt (suspended w) i of
        Some (AwaitExit task) \<Rightarrow> after_exit True task (resumed i w)
      | _ \<Rightarrow> w)"
| "step maxRetries (Child_error i) w =
     (case nth_opt (suspended w) i of
        Some (AwaitExit task) \<Rightarrow> after_exit False task (resumed i w)
      | _ \<Rightarrow> w)"
| "step maxRetries (Verify_settled i r) w =
     (case nth_opt (suspended w) i of
        Some (AwaitVerify task) \<Rightarrow> after_verify task r (resumed i w)
      | _ \<Rightarrow> w)"
| "step maxRetries (Reset_settled i r) w =
     (case nth_opt (suspended w) i of
        Some (AwaitReset task) \<Rightarrow> after_reset task r (resumed i w)
      | _ \<Rightarrow> w)"

definition run :: "int \<Rightarrow> event list \<Rightarrow> watcher \<Rightarrow> watcher" where
  "run maxRetries evs w = foldl (\<lambda>w ev. step maxRetries ev w) w evs"

text \<open>
  \<open>init\<close> after its fetches: the ids of the pending tasks are pushed onto \<open>pendingQueue\<close>
  and, when there are any, \<open>kickProcessing\<close> is called.
\<close>

definition idle :: watcher where
  "idle = \<lparr>pendingQueue = [], processing = False, currentProcess = None, currentTaskId = None,
           stopped = False, suspended = [], children = [], timers = 0, effects = []\<rparr>"

definition init :: "string list \<Rightarrow> watcher" where
  "init ids =
     (let w = idle\<lparr>pendingQueue := ids\<rparr>
      in if pendingQueue w \<noteq> [] then kickProcessing w else w)"

text \<open>
  Used in the proofs: the agent a waiting call has running, and the state of a watcher
  in which at most one call waits, \<open>processing\<close> is set exactly then, and the running
  agents are that call's.
\<close>

fun agent_of :: "cont \<Rightarrow> string list" where
  "agent_of (AwaitExit task) = [task_id task]"
| "agent_of AwaitNext = []"
| "agent_of (AwaitClaim task) = []"
| "agent_of (AwaitVerify task) = []"
| "agent_of (AwaitReset task) = []"

definition single_flight :: "watcher \<Rightarrow> bool" where
  "single_flight w =
     (case suspended w of
        [] \<Rightarrow> \<not> processing w \<and> children w = []
      | [c] \<Rightarrow> processing w \<and> children w = agent_of c
      | c # c' # cs \<Rightarrow> False)"

text \<open>
  The task a waiting call is about, and whether an effect concerns a given task: a
  request naming it, an agent spawned for it, a signal to its agent.
\<close>

fun cont_task :: "cont \<Rightarrow> string option" where
  "cont_task AwaitNext = None"
| "cont_task (AwaitClaim task) = Some (task_id task)"
| "cont_task (AwaitExit task) = Some (task_id task)"
| "cont_task (AwaitVerify task) = Some (task_id task)"
| "cont_task (AwaitReset task) = Some (task_id task)"

fun touches :: "string \<Rightarrow> effect \<Rightarrow> bool" where
  "touches tid (Fetch GET_next) = False"
| "touches tid (Fetch (GET_task t)) = (t = tid)"
| "touches tid (Fetch (PUT_status t s)) = (t = tid)"
| "touches tid (Spawn t) = (t = tid)"
| "touches tid (Kill t) = (t = tid)"

text \<open>
  \<open>over_limit_in m tid ev\<close>: if the event is a response to the fetch of the next task
  that carries the task \<open>tid\<close>, the task has at least \<open>m\<close> attempts.
  \<open>head_blocked m ev\<close>: if the event is a response to the fetch of the next task, it
  carries a task that has reached the limit \<open>m\<close>.
\<close>

fun over_limit_in :: "int \<Rightarrow> string \<Rightarrow> event \<Rightarrow> bool" where
  "over_limit_in m tid (Next_settled i (Responded code (TaskJson t))) =
     (if task_id t = tid then m \<le> int (length (attempts t)) else True)"
| "over_limit_in m tid ev = True"

fun head_blocked :: "int \<Rightarrow> event \<Rightarrow> bool" where
  "head_blocked m (Next_settled i (Responded code (TaskJson t))) = reached_max_retries m t"
| "head_blocked m (Next_settled i (Responded code b)) = False"
| "head_blocked m ev = True"

text \<open>Used in the proofs: the watcher has done nothing about a task; it has dispatched nothing.\<close>

definition untouched :: "string \<Rightarrow> watcher \<Rightarrow> bool" where
  "untouched tid w =
     (list_all (\<lambda>c. cont_task c \<noteq> Some tid) (suspended w) \<and>
      list_all (\<lambda>e. \<not> touches tid e) (effects w) \<and>
      tid \<notin> set (children w) \<and> currentTaskId w \<noteq> Some tid \<and> currentProcess w \<noteq> Some tid)"

definition nothing_dispatched :: "watcher \<Rightarrow> bool" where
  "nothing_dispatched w =
     (list_all (\<lambda>c. c = AwaitNext) (suspended w) \<and>
      list_all (\<lambda>e. e = Fetch GET_next) (effects w) \<and>
      children w = [] \<and> currentProcess w = None)"

section \<open>Example data\<close>

definition both_corrupt :: disk where
  "both_corrupt = [QueuePath \<mapsto> Corrupt ''corrupt'', BackupPath \<mapsto> Corrupt ''also corrupt'']"

definition example_task :: "string \<Rightarrow> timestamp \<Rightarrow> string \<Rightarrow> Task" where
  "example_task tid now p =
     \<lparr>task_id = tid, createdAt = now, updatedAt = now, url = ''/test'', task_type = Element,
      note = ''Fix this'', category = ''tweak'', priority = p, status = ''pending'',
      screenshotPath = ''.review/screenshots/'' @ tid @ ''.png'', element = None,
      page = \<lparr>pg_component = ''App'', pg_sourceFile = ''src/App.tsx'', pg_sourceLine = None\<rparr>,
      region = None, agentNotes = [], filesModified = [], afterScreenshot = None, attempts = []\<rparr>"

definition one_task_queue :: Queue where
  "one_task_queue = \<lparr>version = 1, lastUpdated = 10, items = [example_task ''t1'' 10 ''medium'']\<rparr>"

definition one_task_disk :: disk where
  "one_task_disk = [QueuePath \<mapsto> Json one_task_queue]"

definition three_task_queue :: Queue where
  "three_task_queue =
     \<lparr>version = 1, lastUpdated = 12,
      items = [example_task ''a'' 10 ''low'', example_task ''b'' 11 ''high'', example_task ''c'' 12 ''medium'']\<rparr>"

definition three_task_disk :: disk where
  "three_task_disk = [QueuePath \<mapsto> Json three_task_queue]"

text \<open>
  The directory after the priority of the task \<open>b\<close> has been set to \<open>urgent\<close>, and one
  with two pending tasks, of priority \<open>urgent\<close> and \<open>high\<close>.
\<close>

definition urgent_disk :: disk where
  "urgent_disk = snd (updateTask 20 ''b'' [F_priority ''urgent''] three_task_disk)"

definition two_task_disk :: disk where
  "two_task_disk =
     [QueuePath \<mapsto> Json \<lparr>version = 1, lastUpdated = 12,
        items = [example_task ''u'' 11 ''urgent'', example_task ''h'' 12 ''high'']\<rparr>]"
definition test_png :: string where
  "test_png = ''iVBORw0KGgoAAAANSUhEUgAAAAEAAAABCAIAAACQd1PeAAAADElEQVQI12P4z8AAAAACAAHiIbwzAAAAAElFTkSuQmCC''"

text \<open>
  A server with one pending task (\<open>fresh\<close>); after the watcher's claim (\<open>claimed\<close>) and a
  first activity entry (\<open>working\<close>); after the agent has set the status to \<open>review\<close>
  (\<open>finished\<close>); and after the watcher has posted the agent's closing record (\<open>reviewed\<close>).
\<close>

definition fresh :: server where
  "fresh = \<lparr>files = one_task_disk, taskActivity = Map.empty, sent = []\<rparr>"

definition claimed :: server where
  "claimed = snd (put_task 20 ''t1'' [F_status ''in_progress''] fresh)"

definition working :: server where
  "working = snd (post_activity 21 ''t1'' ''tool_start'' ''Reading src/App.tsx'' claimed)"

definition finished :: server where
  "finished = snd (put_task 22 ''t1'' [F_status ''review'', F_agentNotes ''Fixed''] working)"

definition reviewed :: server where
  "reviewed = snd (post_activity 23 ''t1'' ''result'' ''Complete'' finished)"

text \<open>A server whose only task is in progress and has one activity entry.\<close>

definition running :: server where
  "running =
     \<lparr>files = [QueuePath \<mapsto> Json \<lparr>version = 1, lastUpdated = 20,
          items = [(example_task ''t1'' 10 ''medium'')\<lparr>status := ''in_progress'', updatedAt := 20\<rparr>]\<rparr>],
      taskActivity = [''t1'' \<mapsto> [\<lparr>ac_timestamp = 21, ac_type = ''tool_start'', summary = ''Reading src/App.tsx''\<rparr>]],
      sent = []\<rparr>"

text \<open>
  A task that has been rejected twice; a queue in which it is the pending task of the
  highest priority; the watcher with an agent running for \<open>t1\<close> while \<open>t2\<close> waits, and
  the same watcher after the agent's exit; the events of a watcher that is offered the
  rejected task twice while another task is created.
\<close>

definition rejected :: "string \<Rightarrow> TaskAttempt" where
  "rejected why =
     \<lparr>at_agentNotes = ''Changed the padding'', at_filesModified = [''src/App.tsx''],
      retryReason = why, at_afterScreenshot = None, at_timestamp = 15\<rparr>"

definition retried :: Task where
  "retried = (example_task ''t1'' 10 ''high'')\<lparr>attempts := [rejected ''still wrong'', rejected ''worse'']\<rparr>"

definition blocked_queue :: Queue where
  "blocked_queue = \<lparr>version = 1, lastUpdated = 16, items = [example_task ''t2'' 11 ''medium'', retried]\<rparr>"

definition blocked_server :: server where
  "blocked_server = \<lparr>files = [QueuePath \<mapsto> Json blocked_queue], taskActivity = Map.empty, sent = []\<rparr>"

definition agent_running :: watcher where
  "agent_running =
     run 2 [Next_settled 0 (Responded 200 (TaskJson (example_task ''t1'' 10 ''medium''))),
            Claim_settled 0 (Responded 200 (TaskJson (example_task ''t1'' 10 ''medium'')))]
       (init [''t1'', ''t2''])"

definition agent_exited :: watcher where
  "agent_exited = step 2 (Child_closed 0) agent_running"

text \<open>
  The watcher after it has found the task still \<open>in_progress\<close> when the agent has
  exited, and the watcher that waits for the answer to its claim of \<open>t1\<close>.
\<close>

definition agent_crashed :: watcher where
  "agent_crashed =
     step 2 (Verify_settled 0 (Responded 200
        (TaskJson ((example_task ''t1'' 10 ''medium'')\<lparr>status := ''in_progress''\<rparr>)))) agent_exited"

definition agent_claiming :: watcher where
  "agent_claiming =
     run 2 [Next_settled 0 (Responded 200 (TaskJson (example_task ''t1'' 10 ''medium'')))]
       (init [''t1'', ''t2''])"

definition offered_twice :: "event list" where
  "offered_twice =
     [Next_settled 0 (Responded 200 (TaskJson retried)),
      Sse_task_created (example_task ''t3'' 12 ''low''),
      Next_settled 0 (Responded 200 (TaskJson retried))]"

section \<open>Reading and recovery\<close>

lemma write_returns:
  "write_queue now queue d = (Inr (), snd (write_queue now queue d))"
  by (simp add: write_queue_def Let_def writeFile_def rename_def copyFile_def existsSync_def
      split: option.splits)

lemma write_primary:
  "snd (write_queue now queue d) QueuePath = Some (Json (queue\<lparr>lastUpdated := now\<rparr>))"
  by (simp add: write_queue_def Let_def writeFile_def rename_def copyFile_def existsSync_def
      JSON_stringify_def split: option.splits)

lemma write_backup:
  "snd (write_queue now queue d) BackupPath = (case d QueuePath of None \<Rightarrow> d BackupPath | Some c \<Rightarrow> Some c)"
  by (simp add: write_queue_def Let_def writeFile_def rename_def copyFile_def existsSync_def
      split: option.splits)

lemma read_returns:
  "\<exists>queue. fst (read now d) = Inr queue"
  by (simp add: read_def split: sum.splits prod.splits)

lemma read_primary_corrupt:
  "d QueuePath = Some (Corrupt g) \<Longrightarrow> read_primary d = Inl SyntaxError"
  by (simp add: read_primary_def readFile_def JSON_parse_def)

lemma read_from_backup:
  assumes "read_primary d = Inl e" and "d BackupPath = Some (Json q)"
  shows "read now d = (Inr q, d(QueuePath \<mapsto> Json q))"
  using assms
  by (simp add: read_def read_backup_def existsSync_def readFile_def JSON_parse_def writeFile_def)

lemma unreadable_primary:
  "unreadable QueuePath d \<Longrightarrow> \<exists>e. read_primary d = Inl e"
  by (auto simp: unreadable_def read_primary_def split: sum.splits)

lemma unreadable_backup:
  "unreadable BackupPath d \<Longrightarrow> \<exists>e. read_backup d = Inl e"
  by (auto simp: unreadable_def read_backup_def split: sum.splits)

text \<open>
  Claim C1. After two writes, the second of which found the first one's document in the
  primary file, the backup holds the document as the first write stored it (stamped with
  that write's time). Whatever the directory held before the two writes, when the
  primary is then overwritten with text that does not parse, \<open>read\<close> returns that
  document, and it leaves a primary file whose content is the backup's.
\<close>

theorem read_recovers_backup_generation:
  "fst (write_queue t1 q1 d) = Inr () \<and>
   fst (write_queue t2 q2 (snd (write_queue t1 q1 d))) = Inr () \<and>
   read now ((snd (write_queue t2 q2 (snd (write_queue t1 q1 d))))(QueuePath \<mapsto> Corrupt g))
     = (Inr (q1\<lparr>lastUpdated := t1\<rparr>),
        (snd (write_queue t2 q2 (snd (write_queue t1 q1 d))))(QueuePath \<mapsto> Json (q1\<lparr>lastUpdated := t1\<rparr>))) \<and>
   snd (read now ((snd (write_queue t2 q2 (snd (write_queue t1 q1 d))))(QueuePath \<mapsto> Corrupt g))) QueuePath
     = snd (read now ((snd (write_queue t2 q2 (snd (write_queue t1 q1 d))))(QueuePath \<mapsto> Corrupt g))) BackupPath"
proof -
  let ?d1 = "snd (write_queue t1 q1 d)"
  let ?d2 = "snd (write_queue t2 q2 ?d1)"
  let ?d3 = "?d2(QueuePath \<mapsto> Corrupt g)"
  let ?q = "q1\<lparr>lastUpdated := t1\<rparr>"
  have w1: "fst (write_queue t1 q1 d) = Inr ()"
    using write_returns [of t1 q1 d] by (metis fst_conv)
  have w2: "fst (write_queue t2 q2 ?d1) = Inr ()"
    using write_returns [of t2 q2 ?d1] by (metis fst_conv)
  have b: "?d3 BackupPath = Some (Json ?q)"
    by (simp add: write_backup write_primary)
  have p: "read_primary ?d3 = Inl SyntaxError"
    by (rule read_primary_corrupt) simp
  have r: "read now ?d3 = (Inr ?q, ?d3(QueuePath \<mapsto> Json ?q))"
    by (rule read_from_backup [OF p b])
  have r': "read now ?d3 = (Inr ?q, ?d2(QueuePath \<mapsto> Json ?q))"
    using r by simp
  have e: "snd (read now ?d3) QueuePath = snd (read now ?d3) BackupPath"
    using b by (simp add: r)
  show ?thesis using w1 w2 r' e by simp
qed

text \<open>
  Claim C3. \<open>read\<close> returns a document from every state of the directory: nothing it
  calls throws past its two \<^verbatim>\<open>catch\<close> blocks. When neither the primary nor the backup
  can be read and parsed (absent or corrupt), the document is \<open>emptyQueue\<close> at the time
  of the call, and the directory is left as it was.
\<close>

theorem read_never_raises:
  "(\<exists>queue. fst (read now d) = Inr queue) \<and>
   (unreadable QueuePath d \<and> unreadable BackupPath d \<longrightarrow>
      read now d = (Inr (emptyQueue now), d))"
proof
  show "\<exists>queue. fst (read now d) = Inr queue" by (rule read_returns)
next
  show "unreadable QueuePath d \<and> unreadable BackupPath d \<longrightarrow>
      read now d = (Inr (emptyQueue now), d)"
  proof
    assume u: "unreadable QueuePath d \<and> unreadable BackupPath d"
    from u obtain e where p: "read_primary d = Inl e"
      using unreadable_primary by blast
    from u obtain e' where b: "read_backup d = Inl e'"
      using unreadable_backup by blast
    show "read now d = (Inr (emptyQueue now), d)"
      by (simp add: read_def p b)
  qed
qed

theorem read_never_raises_witness:
  "unreadable QueuePath both_corrupt \<and> unreadable BackupPath both_corrupt \<and>
   read 5 both_corrupt = (Inr (emptyQueue 5), both_corrupt) \<and>
   unreadable QueuePath Map.empty \<and> unreadable BackupPath Map.empty \<and>
   read 5 Map.empty = (Inr (emptyQueue 5), Map.empty)"
proof -
  have c: "unreadable QueuePath both_corrupt \<and> unreadable BackupPath both_corrupt"
    by (simp add: unreadable_def both_corrupt_def readFile_def JSON_parse_def)
  have a: "unreadable QueuePath Map.empty \<and> unreadable BackupPath Map.empty"
    by (simp add: unreadable_def readFile_def)
  show ?thesis
    using c a read_never_raises [of 5 both_corrupt] read_never_raises [of 5 Map.empty]
    by simp
qed

section \<open>Updating a task\<close>

lemma allowed_cases:
  "allowed f \<longleftrightarrow> (case f of F_status v \<Rightarrow> True | F_agentNotes v \<Rightarrow> True | F_filesModified v \<Rightarrow> True
     | F_afterScreenshot v \<Rightarrow> True | F_attempts v \<Rightarrow> True | F_note v \<Rightarrow> True | F_category v \<Rightarrow> True
     | F_priority v \<Rightarrow> True | F_other k \<Rightarrow> k \<in> set VALID_UPDATE_FIELDS | _ \<Rightarrow> False)"
  by (cases f) (simp_all add: allowed_def VALID_UPDATE_FIELDS_def)

lemma status_entry_filter: "status_entry (filter allowed fs) = status_entry fs"
  by (induction fs) (auto simp: allowed_cases split: field.splits option.splits)

lemma findIndex_Some: "findIndex P xs = Some i \<Longrightarrow> i < length xs \<and> P (xs ! i)"
  by (induction xs arbitrary: i) (auto split: if_splits)


lemma read_parsed: "read_primary d = Inr q \<Longrightarrow> read now d = (Inr q, d)"
  by (simp add: read_def)

lemma read_primary_Json: "d QueuePath = Some (Json q) \<Longrightarrow> read_primary d = Inr q"
  by (simp add: read_primary_def readFile_def JSON_parse_def)

lemma read_items_stored:
  assumes "read now d = (Inr q, d1)" and "items q \<noteq> []"
  shows "d1 QueuePath = Some (Json q)"
  using assms
  by (auto simp: read_def read_primary_def read_backup_def readFile_def JSON_parse_def
      writeFile_def emptyQueue_def split: sum.splits option.splits content.splits if_splits)

lemma read_stable:
  assumes "read now d = (Inr q, d1)" and "items q \<noteq> []"
  shows "read now' d1 = (Inr q, d1)"
  using read_items_stored [OF assms] by (simp add: read_parsed read_primary_Json)

lemma fold_assign_frame:
  "\<forall>f \<in> set fs. allowed f \<Longrightarrow>
   task_id (fold assign fs t) = task_id t \<and> createdAt (fold assign fs t) = createdAt t \<and>
   url (fold assign fs t) = url t \<and> task_type (fold assign fs t) = task_type t \<and>
   screenshotPath (fold assign fs t) = screenshotPath t \<and> element (fold assign fs t) = element t \<and>
   page (fold assign fs t) = page t \<and> region (fold assign fs t) = region t"
proof (induction fs arbitrary: t)
  case Nil
  then show ?case by simp
next
  case (Cons f fs)
  then have a: "allowed f" and r: "\<forall>f \<in> set fs. allowed f" by simp_all
  have s: "task_id (assign f t) = task_id t \<and> createdAt (assign f t) = createdAt t \<and>
   url (assign f t) = url t \<and> task_type (assign f t) = task_type t \<and>
   screenshotPath (assign f t) = screenshotPath t \<and> element (assign f t) = element t \<and>
   page (assign f t) = page t \<and> region (assign f t) = region t"
    using a by (cases f) (simp_all add: allowed_cases)
  show ?case using Cons.IH [OF r, of "assign f t"] s by simp
qed

lemma updateTask_filtered:
  "updateTask now tid (filter allowed updates) d = updateTask now tid updates d"
proof -
  have "filter allowed (filter allowed updates) = filter allowed updates" by simp
  then show ?thesis unfolding updateTask_def by (simp only:)
qed

text \<open>
  Claim C4. When the id names a task of the document \<open>read\<close> yields and the payload's
  \<open>status\<close> is present with a value outside \<open>VALID_STATUSES\<close>, \<open>updateTask\<close> throws
  \<open>InvalidStatus\<close> with that value and does nothing after its \<open>read\<close>: the directory
  is the one \<open>read\<close> left, a later \<open>read\<close> yields the same document and changes nothing,
  and when the primary file parsed the directory is exactly as before the call.
\<close>

theorem updateTask_invalid_status:
  assumes "read now d = (Inr queue, d1)"
    and "findIndex (\<lambda>t. task_id t = tid) (items queue) = Some index"
    and "status_entry updates = Some s"
    and "s \<notin> set VALID_STATUSES"
  shows "updateTask now tid updates d = (Inl (InvalidStatus s), d1) \<and>
         read now' d1 = (Inr queue, d1) \<and>
         (\<forall>q. read_primary d = Inr q \<longrightarrow> d1 = d)"
proof -
  have u: "updateTask now tid updates d = (Inl (InvalidStatus s), d1)"
    using assms by (simp add: updateTask_def status_entry_filter)
  have "index < length (items queue)"
    using findIndex_Some [OF assms(2)] by simp
  then have ne: "items queue \<noteq> []" by auto
  have st: "read now' d1 = (Inr queue, d1)"
    by (rule read_stable [OF assms(1) ne])
  have same: "\<forall>q. read_primary d = Inr q \<longrightarrow> d1 = d"
    using assms(1) by (auto simp: read_parsed)
  show ?thesis using u st same by blast
qed

theorem updateTask_invalid_status_witness:
  "updateTask 20 ''t1'' [F_status ''invalid''] one_task_disk
     = (Inl (InvalidStatus ''invalid''), one_task_disk) \<and>
   read 30 one_task_disk = (Inr one_task_queue, one_task_disk)"
proof -
  have p: "read_primary one_task_disk = Inr one_task_queue"
    by (simp add: one_task_disk_def read_primary_Json)
  have r: "read 20 one_task_disk = (Inr one_task_queue, one_task_disk)"
    by (rule read_parsed [OF p])
  have i: "findIndex (\<lambda>t. task_id t = ''t1'') (items one_task_queue) = Some 0"
    by (simp add: one_task_queue_def example_task_def)
  have s: "status_entry [F_status ''invalid''] = Some ''invalid''" by simp
  have v: "''invalid'' \<notin> set VALID_STATUSES" by (simp add: VALID_STATUSES_def)
  show ?thesis
    using updateTask_invalid_status [OF r i s v, of 30] by simp
qed

lemma updateTask_found:
  assumes "read now d = (Inr queue, d1)"
    and "findIndex (\<lambda>t. task_id t = tid) (items queue) = Some index"
    and "filter allowed updates = fs"
    and "case status_entry fs of None \<Rightarrow> True | Some s \<Rightarrow> s \<in> set VALID_STATUSES"
    and "task' = (fold assign fs (items queue ! index))\<lparr>updatedAt := now\<rparr>"
    and "write_queue now (queue\<lparr>items := (items queue)[index := task']\<rparr>) d1 = (Inr (), dd)"
  shows "updateTask now tid updates d = (Inr (Some task'), dd)"
proof -
  have c: "\<not> (case status_entry fs of None \<Rightarrow> False | Some s \<Rightarrow> s \<notin> set VALID_STATUSES)"
    using assms(4) by (simp split: option.splits)
  show ?thesis
    using assms(6) c
    by (simp add: updateTask_def assms(1) assms(2) assms(3) Let_def assms(5) del: filter.simps)
qed

text \<open>
  Claim C5. When \<open>updateTask\<close> succeeds on an existing task, whatever the payload holds
  (an \<open>id\<close>, a \<open>createdAt\<close>, any key off the allow-list), the returned task keeps the
  stored task's \<open>id\<close> and \<open>createdAt\<close>, and its \<open>url\<close>, \<open>type\<close>, \<open>screenshotPath\<close>,
  \<open>element\<close>, \<open>page\<close> and \<open>region\<close>; \<open>updatedAt\<close> is the time of the call; the call does
  exactly what it does on the payload cut down to the allow-listed keys; and the primary
  file holds the document with that task replaced in place.
\<close>

theorem updateTask_keeps_identity:
  assumes "read now d = (Inr queue, d1)"
    and "findIndex (\<lambda>t. task_id t = tid) (items queue) = Some index"
    and "updateTask now tid updates d = (Inr (Some task'), d2)"
  shows "task_id task' = tid \<and> task_id task' = task_id (items queue ! index) \<and>
         createdAt task' = createdAt (items queue ! index) \<and>
         url task' = url (items queue ! index) \<and>
         task_type task' = task_type (items queue ! index) \<and>
         screenshotPath task' = screenshotPath (items queue ! index) \<and>
         element task' = element (items queue ! index) \<and>
         page task' = page (items queue ! index) \<and>
         region task' = region (items queue ! index) \<and>
         updatedAt task' = now \<and>
         updateTask now tid (filter allowed updates) d = (Inr (Some task'), d2) \<and>
         d2 QueuePath = Some (Json (queue\<lparr>items := (items queue)[index := task'], lastUpdated := now\<rparr>))"
proof -
  let ?t = "items queue ! index"
  let ?fs = "filter allowed updates"
  let ?q' = "queue\<lparr>items := (items queue)[index := (fold assign ?fs ?t)\<lparr>updatedAt := now\<rparr>]\<rparr>"
  obtain dd where w: "write_queue now ?q' d1 = (Inr (), dd)"
    using write_returns [of now ?q' d1] by blast
  have "task' = (fold assign ?fs ?t)\<lparr>updatedAt := now\<rparr> \<and> d2 = dd"
    using assms(3)
    by (simp add: updateTask_def assms(1) assms(2) Let_def w split: if_splits)
  then have both: "task' = (fold assign ?fs ?t)\<lparr>updatedAt := now\<rparr> \<and> d2 = snd (write_queue now ?q' d1)"
    by (simp add: w)
  have t': "task' = (fold assign ?fs ?t)\<lparr>updatedAt := now\<rparr>" using both by simp
  have d2: "d2 = snd (write_queue now (queue\<lparr>items := (items queue)[index := task']\<rparr>) d1)"
    using both by simp
  have al: "\<forall>f \<in> set ?fs. allowed f" by simp
  have fr: "task_id task' = task_id ?t \<and> createdAt task' = createdAt ?t \<and>
      url task' = url ?t \<and> task_type task' = task_type ?t \<and>
      screenshotPath task' = screenshotPath ?t \<and> element task' = element ?t \<and>
      page task' = page ?t \<and> region task' = region ?t"
    using fold_assign_frame [OF al, of ?t] by (simp add: t')
  have id: "task_id ?t = tid"
    using findIndex_Some [OF assms(2)] by simp
  have up: "updatedAt task' = now" by (simp add: t')
  have fl: "updateTask now tid ?fs d = (Inr (Some task'), d2)"
    using assms(3) by (simp add: updateTask_filtered)
  have st: "d2 QueuePath = Some (Json (queue\<lparr>items := (items queue)[index := task'], lastUpdated := now\<rparr>))"
    by (simp add: d2 write_primary)
  show ?thesis using fr id up fl st by simp
qed

theorem updateTask_keeps_identity_witness:
  "\<exists>task' d2.
     updateTask 20 ''t1'' [F_id ''hacked-id'', F_createdAt 999, F_status ''review'', F_other ''extra'']
        one_task_disk = (Inr (Some task'), d2) \<and>
     task_id task' = ''t1'' \<and> createdAt task' = 10 \<and> status task' = ''review'' \<and> updatedAt task' = 20"
proof -
  let ?ups = "[F_id ''hacked-id'', F_createdAt 999, F_status ''review'', F_other ''extra'']"
  let ?t' = "(example_task ''t1'' 10 ''medium'')\<lparr>status := ''review'', updatedAt := 20\<rparr>"
  let ?q' = "one_task_queue\<lparr>items := [?t']\<rparr>"
  have p: "read_primary one_task_disk = Inr one_task_queue"
    by (simp add: one_task_disk_def read_primary_Json)
  have r: "read 20 one_task_disk = (Inr one_task_queue, one_task_disk)"
    by (rule read_parsed [OF p])
  have i: "findIndex (\<lambda>t. task_id t = ''t1'') (items one_task_queue) = Some 0"
    by (simp add: one_task_queue_def example_task_def)
  have f: "filter allowed ?ups = [F_status ''review'']"
    by (simp add: allowed_cases VALID_UPDATE_FIELDS_def)
  obtain dd where w: "write_queue 20 ?q' one_task_disk = (Inr (), dd)"
    using write_returns [of 20 ?q' one_task_disk] by blast
  have it: "items one_task_queue = [example_task ''t1'' 10 ''medium'']"
    by (simp add: one_task_queue_def)
  have t: "?t' = (fold assign [F_status ''review''] (items one_task_queue ! 0))\<lparr>updatedAt := 20\<rparr>"
    by (simp add: it)
  have w': "write_queue 20 (one_task_queue\<lparr>items := (items one_task_queue)[0 := ?t']\<rparr>) one_task_disk
              = (Inr (), dd)"
    using w by (simp add: it)
  have v: "case status_entry [F_status ''review''] of None \<Rightarrow> True | Some s \<Rightarrow> s \<in> set VALID_STATUSES"
    by (simp add: VALID_STATUSES_def)
  have u: "updateTask 20 ''t1'' ?ups one_task_disk = (Inr (Some ?t'), dd)"
    by (rule updateTask_found [OF r i f v t w'])
  have "task_id ?t' = ''t1'' \<and> createdAt ?t' = createdAt (items one_task_queue ! 0)"
    using updateTask_keeps_identity [OF r i u] by simp
  then have "task_id ?t' = ''t1'' \<and> createdAt ?t' = 10 \<and> status ?t' = ''review'' \<and> updatedAt ?t' = 20"
    by (simp add: one_task_queue_def example_task_def)
  then show ?thesis using u by blast
qed

section \<open>Selecting the next task\<close>

lemma PRIORITY_ORDER_Some:
  "PRIORITY_ORDER p = Some v \<longleftrightarrow>
     (p = ''high'' \<and> v = 0) \<or> (p = ''medium'' \<and> v = 1) \<or> (p = ''low'' \<and> v = 2)"
  by (auto simp: PRIORITY_ORDER_def)

text \<open>Between two tasks whose priorities are keys of \<open>PRIORITY_ORDER\<close> the comparator is a number.\<close>

lemma compare_known:
  assumes "PRIORITY_ORDER (priority a) = Some pa" and "PRIORITY_ORDER (priority b) = Some pb"
  shows "CompareArrayElements compare_tasks a b
           = (if pa \<noteq> pb then pa - pb else createdAt a - createdAt b)"
  by (simp add: CompareArrayElements_def compare_tasks_def subtract_def assms Let_def)

lemma compare_known_le:
  assumes "PRIORITY_ORDER (priority a) = Some pa" and "PRIORITY_ORDER (priority b) = Some pb"
  shows "CompareArrayElements compare_tasks a b \<le> 0 \<longleftrightarrow>
           pa < pb \<or> (pa = pb \<and> createdAt a \<le> createdAt b)"
  by (auto simp: compare_known [OF assms])

lemma compare_known_gt:
  assumes "PRIORITY_ORDER (priority u) = Some pu" and "PRIORITY_ORDER (priority t) = Some pt"
  shows "\<not> CompareArrayElements compare_tasks u t \<le> 0 \<longleftrightarrow>
           pt < pu \<or> (pu = pt \<and> createdAt t < createdAt u)"
  unfolding compare_known_le [OF assms] by arith

lemma compare_known_refl:
  assumes "PRIORITY_ORDER (priority a) \<noteq> None"
  shows "CompareArrayElements compare_tasks a a \<le> 0"
proof -
  obtain pa where a: "PRIORITY_ORDER (priority a) = Some pa" using assms by blast
  show ?thesis by (simp add: compare_known_le [OF a a])
qed

lemma compare_known_trans:
  assumes "PRIORITY_ORDER (priority a) \<noteq> None" and "PRIORITY_ORDER (priority b) \<noteq> None"
    and "PRIORITY_ORDER (priority c) \<noteq> None"
    and "CompareArrayElements compare_tasks a b \<le> 0"
    and "CompareArrayElements compare_tasks b c \<le> 0"
  shows "CompareArrayElements compare_tasks a c \<le> 0"
proof -
  obtain pa where a: "PRIORITY_ORDER (priority a) = Some pa" using assms(1) by blast
  obtain pb where b: "PRIORITY_ORDER (priority b) = Some pb" using assms(2) by blast
  obtain pc where c: "PRIORITY_ORDER (priority c) = Some pc" using assms(3) by blast
  have ab: "pa < pb \<or> (pa = pb \<and> createdAt a \<le> createdAt b)"
    using assms(4) by (simp only: compare_known_le [OF a b])
  have bc: "pb < pc \<or> (pb = pc \<and> createdAt b \<le> createdAt c)"
    using assms(5) by (simp only: compare_known_le [OF b c])
  have "pa < pc \<or> (pa = pc \<and> createdAt a \<le> createdAt c)"
    using ab bc by arith
  then show ?thesis by (simp only: compare_known_le [OF a c])
qed

lemma compare_known_total:
  assumes "PRIORITY_ORDER (priority a) \<noteq> None" and "PRIORITY_ORDER (priority b) \<noteq> None"
    and "\<not> CompareArrayElements compare_tasks a b \<le> 0"
  shows "CompareArrayElements compare_tasks b a \<le> 0"
proof -
  obtain pa where a: "PRIORITY_ORDER (priority a) = Some pa" using assms(1) by blast
  obtain pb where b: "PRIORITY_ORDER (priority b) = Some pb" using assms(2) by blast
  have "pb < pa \<or> (pa = pb \<and> createdAt b < createdAt a)"
    using assms(3) by (simp only: compare_known_gt [OF a b])
  then have "pb < pa \<or> (pb = pa \<and> createdAt b \<le> createdAt a)" by arith
  then show ?thesis by (simp only: compare_known_le [OF b a])
qed

lemma insert_by_set: "set (insert_by cmp a bs) = insert a (set bs)"
  by (induction bs) auto

lemma sort_by_set: "set (sort_by cmp as) = set as"
  by (induction as) (auto simp: sort_by_def insert_by_set)

lemma sort_by_head:
  "(case sort_by cmp as of [] \<Rightarrow> None | t # ts \<Rightarrow> Some t) = first_least cmp as"
proof (induction as)
  case Nil
  then show ?case by (simp add: sort_by_def)
next
  case (Cons a as)
  have s: "sort_by cmp (a # as) = insert_by cmp a (sort_by cmp as)"
    by (simp add: sort_by_def)
  show ?case
    using Cons.IH [symmetric] by (cases "sort_by cmp as") (simp_all add: s)
qed

lemma first_least_None: "first_least cmp as = None \<longleftrightarrow> as = []"
  by (cases as) (auto split: option.splits)

lemma first_least_mem: "first_least cmp as = Some t \<Longrightarrow> t \<in> set as"
  by (induction as arbitrary: t) (auto split: option.splits if_splits)

lemma first_least_least:
  assumes "first_least (CompareArrayElements compare_tasks) as = Some t"
    and "\<forall>u \<in> set as. PRIORITY_ORDER (priority u) \<noteq> None"
  shows "\<forall>u \<in> set as. CompareArrayElements compare_tasks t u \<le> 0"
  using assms
proof (induction as arbitrary: t)
  case Nil
  then show ?case by simp
next
  case (Cons a as)
  have ka: "PRIORITY_ORDER (priority a) \<noteq> None" using Cons.prems(2) by simp
  have kas: "\<forall>u \<in> set as. PRIORITY_ORDER (priority u) \<noteq> None" using Cons.prems(2) by simp
  show ?case
  proof (cases "first_least (CompareArrayElements compare_tasks) as")
    case None
    then have e: "as = []" by (simp add: first_least_None)
    have "t = a" using Cons.prems(1) None by simp
    then show ?thesis using compare_known_refl [OF ka] by (simp add: e)
  next
    case (Some b)
    have b: "b \<in> set as" using Some by (rule first_least_mem)
    then have kb: "PRIORITY_ORDER (priority b) \<noteq> None" using kas by blast
    have bl: "\<forall>u \<in> set as. CompareArrayElements compare_tasks b u \<le> 0"
      by (rule Cons.IH [OF Some kas])
    show ?thesis
    proof (cases "CompareArrayElements compare_tasks a b \<le> 0")
      case True
      then have t: "t = a" using Cons.prems(1) Some by simp
      have "\<forall>u \<in> set as. CompareArrayElements compare_tasks a u \<le> 0"
      proof
        fix u assume u: "u \<in> set as"
        then have ku: "PRIORITY_ORDER (priority u) \<noteq> None" using kas by blast
        have "CompareArrayElements compare_tasks b u \<le> 0" using bl u by blast
        then show "CompareArrayElements compare_tasks a u \<le> 0"
          by (rule compare_known_trans [OF ka kb ku True])
      qed
      then show ?thesis using t by (simp add: compare_known_refl [OF ka])
    next
      case False
      then have t: "t = b" using Cons.prems(1) Some by simp
      have "CompareArrayElements compare_tasks b a \<le> 0"
        by (rule compare_known_total [OF ka kb False])
      then show ?thesis using t bl by simp
    qed
  qed
qed

text \<open>
  Among the least elements the first of the input wins: every element before the chosen
  one that passes the filter is strictly greater.
\<close>

lemma first_least_in_order:
  assumes "first_least cmp (filter P as) = Some t"
  shows "\<exists>i < length as. as ! i = t \<and> (\<forall>j < i. P (as ! j) \<longrightarrow> \<not> cmp (as ! j) t \<le> 0)"
  using assms
proof (induction as arbitrary: t)
  case Nil
  then show ?case by simp
next
  case (Cons a as)
  have step: "\<exists>i < length (a # as). (a # as) ! i = t \<and>
        (\<forall>j < i. P ((a # as) ! j) \<longrightarrow> \<not> cmp ((a # as) ! j) t \<le> 0)"
    if r: "first_least cmp (filter P as) = Some t"
      and h: "P a \<longrightarrow> \<not> cmp a t \<le> 0" for t
  proof -
    from Cons.IH [OF r] obtain i where i: "i < length as" "as ! i = t"
      "\<forall>j < i. P (as ! j) \<longrightarrow> \<not> cmp (as ! j) t \<le> 0" by blast
    have "\<forall>j < Suc i. P ((a # as) ! j) \<longrightarrow> \<not> cmp ((a # as) ! j) t \<le> 0"
    proof (intro allI impI)
      fix j assume "j < Suc i" and "P ((a # as) ! j)"
      then show "\<not> cmp ((a # as) ! j) t \<le> 0"
        using h i(3) by (cases j) auto
    qed
    then have "Suc i < length (a # as) \<and> (a # as) ! Suc i = t \<and>
        (\<forall>j < Suc i. P ((a # as) ! j) \<longrightarrow> \<not> cmp ((a # as) ! j) t \<le> 0)"
      using i by simp
    then show ?thesis by blast
  qed
  have zero: "\<exists>i < length (a # as). (a # as) ! i = a \<and>
        (\<forall>j < i. P ((a # as) ! j) \<longrightarrow> \<not> cmp ((a # as) ! j) a \<le> 0)"
    by (rule exI [of _ 0]) simp
  show ?case
  proof (cases "P a")
    case False
    then have "first_least cmp (filter P as) = Some t" using Cons.prems by simp
    then show ?thesis using False by (intro step) simp_all
  next
    case True
    show ?thesis
    proof (cases "first_least cmp (filter P as)")
      case None
      then have "t = a" using Cons.prems True by simp
      then show ?thesis using zero by simp
    next
      case (Some b)
      show ?thesis
      proof (cases "cmp a b \<le> 0")
        case le: True
        then have "t = a" using Cons.prems True Some by simp
        then show ?thesis using zero by simp
      next
        case gt: False
        then have t: "t = b" using Cons.prems True Some by simp
        show ?thesis using Some gt t by (intro step) simp_all
      qed
    qed
  qed
qed

lemma getNextPending_result:
  assumes "read now d = (Inr queue, d1)"
  shows "getNextPending now d
           = (Inr (first_least (CompareArrayElements compare_tasks)
                     (filter (\<lambda>t. status t = ''pending'') (items queue))), d1)"
  by (simp add: getNextPending_def assms Let_def sort_by_head)

text \<open>
  Claim C2, as the code has it. On the document \<open>read\<close> yields, \<open>getNextPending\<close> returns
  none exactly when no task is pending, and a task it returns is a pending task of the
  document. When the priority of every pending task is one of \<open>high\<close>, \<open>medium\<close> and \<open>low\<close>
  (a key of \<open>PRIORITY_ORDER\<close>), the returned task's priority tier is the lowest among the
  pending tasks and its creation time is the earliest within that tier; of several such
  tasks it is the one that comes first in the document, the order in which tasks were
  added. Without that condition the selection fails, as the example after the theorem shows.
\<close>

theorem getNextPending_selects:
  assumes "read now d = (Inr queue, d1)"
  shows "\<exists>r. getNextPending now d = (Inr r, d1) \<and>
           (r = None \<longleftrightarrow> (\<forall>u \<in> set (items queue). status u \<noteq> ''pending'')) \<and>
           (\<forall>t. r = Some t \<longrightarrow> t \<in> set (items queue) \<and> status t = ''pending'') \<and>
           ((\<forall>u \<in> set (items queue). status u = ''pending'' \<longrightarrow> PRIORITY_ORDER (priority u) \<noteq> None) \<longrightarrow>
            (\<forall>t. r = Some t \<longrightarrow>
               (\<exists>pt. PRIORITY_ORDER (priority t) = Some pt \<and>
                  (\<forall>u \<in> set (items queue). status u = ''pending'' \<longrightarrow>
                     (\<exists>pu. PRIORITY_ORDER (priority u) = Some pu \<and> pt \<le> pu \<and>
                           (pu = pt \<longrightarrow> createdAt t \<le> createdAt u))) \<and>
                  (\<exists>i < length (items queue). items queue ! i = t \<and>
                     (\<forall>j < i. status (items queue ! j) = ''pending'' \<longrightarrow>
                        (\<exists>pj. PRIORITY_ORDER (priority (items queue ! j)) = Some pj \<and>
                              (pt < pj \<or> (pj = pt \<and> createdAt t < createdAt (items queue ! j)))))))))"
proof -
  let ?P = "\<lambda>t. status t = ''pending''"
  let ?ps = "filter ?P (items queue)"
  let ?cmp = "CompareArrayElements compare_tasks"
  let ?r = "first_least ?cmp ?ps"
  let ?K = "\<forall>u \<in> set (items queue). status u = ''pending'' \<longrightarrow> PRIORITY_ORDER (priority u) \<noteq> None"
  let ?S = "\<lambda>t. \<exists>pt. PRIORITY_ORDER (priority t) = Some pt \<and>
                  (\<forall>u \<in> set (items queue). status u = ''pending'' \<longrightarrow>
                     (\<exists>pu. PRIORITY_ORDER (priority u) = Some pu \<and> pt \<le> pu \<and>
                           (pu = pt \<longrightarrow> createdAt t \<le> createdAt u))) \<and>
                  (\<exists>i < length (items queue). items queue ! i = t \<and>
                     (\<forall>j < i. status (items queue ! j) = ''pending'' \<longrightarrow>
                        (\<exists>pj. PRIORITY_ORDER (priority (items queue ! j)) = Some pj \<and>
                              (pt < pj \<or> (pj = pt \<and> createdAt t < createdAt (items queue ! j))))))"
  have g: "getNextPending now d = (Inr ?r, d1)"
    by (rule getNextPending_result [OF assms])
  have n: "?r = None \<longleftrightarrow> (\<forall>u \<in> set (items queue). status u \<noteq> ''pending'')"
    by (simp add: first_least_None filter_empty_conv)
  have m: "\<forall>t. ?r = Some t \<longrightarrow> t \<in> set (items queue) \<and> status t = ''pending''"
  proof (intro allI impI)
    fix t assume "?r = Some t"
    then have "t \<in> set ?ps" by (rule first_least_mem)
    then show "t \<in> set (items queue) \<and> status t = ''pending''" by simp
  qed
  have s: "?K \<longrightarrow> (\<forall>t. ?r = Some t \<longrightarrow> ?S t)"
  proof (intro allI impI)
    fix t assume k: ?K and r: "?r = Some t"
    have kps: "\<forall>u \<in> set ?ps. PRIORITY_ORDER (priority u) \<noteq> None" using k by simp
    have tm: "t \<in> set ?ps" using r by (rule first_least_mem)
    then have "PRIORITY_ORDER (priority t) \<noteq> None" using kps by blast
    then obtain pt where pt: "PRIORITY_ORDER (priority t) = Some pt" by blast
    have l: "\<forall>u \<in> set ?ps. ?cmp t u \<le> 0"
      by (rule first_least_least [OF r kps])
    have b: "\<forall>u \<in> set (items queue). status u = ''pending'' \<longrightarrow>
                (\<exists>pu. PRIORITY_ORDER (priority u) = Some pu \<and> pt \<le> pu \<and>
                      (pu = pt \<longrightarrow> createdAt t \<le> createdAt u))"
    proof (intro ballI impI)
      fix u assume u: "u \<in> set (items queue)" and p: "status u = ''pending''"
      then have "PRIORITY_ORDER (priority u) \<noteq> None" using k by blast
      then obtain pu where pu: "PRIORITY_ORDER (priority u) = Some pu" by blast
      have "?cmp t u \<le> 0" using l u p by simp
      then have "pt < pu \<or> (pt = pu \<and> createdAt t \<le> createdAt u)"
        by (simp only: compare_known_le [OF pt pu])
      then have "pt \<le> pu \<and> (pu = pt \<longrightarrow> createdAt t \<le> createdAt u)" by arith
      then show "\<exists>pu. PRIORITY_ORDER (priority u) = Some pu \<and> pt \<le> pu \<and>
                      (pu = pt \<longrightarrow> createdAt t \<le> createdAt u)"
        using pu by blast
    qed
    from first_least_in_order [OF r] obtain i where i: "i < length (items queue)"
      "items queue ! i = t"
      "\<forall>j < i. status (items queue ! j) = ''pending'' \<longrightarrow> \<not> ?cmp (items queue ! j) t \<le> 0"
      by blast
    have c: "\<forall>j < i. status (items queue ! j) = ''pending'' \<longrightarrow>
                (\<exists>pj. PRIORITY_ORDER (priority (items queue ! j)) = Some pj \<and>
                      (pt < pj \<or> (pj = pt \<and> createdAt t < createdAt (items queue ! j))))"
    proof (intro allI impI)
      fix j assume j: "j < i" and p: "status (items queue ! j) = ''pending''"
      have "items queue ! j \<in> set (items queue)" using j i(1) by simp
      then have "PRIORITY_ORDER (priority (items queue ! j)) \<noteq> None" using k p by blast
      then obtain pj where pj: "PRIORITY_ORDER (priority (items queue ! j)) = Some pj" by blast
      have "\<not> ?cmp (items queue ! j) t \<le> 0" using i(3) j p by blast
      then have "pt < pj \<or> (pj = pt \<and> createdAt t < createdAt (items queue ! j))"
        by (simp only: compare_known_gt [OF pj pt])
      then show "\<exists>pj. PRIORITY_ORDER (priority (items queue ! j)) = Some pj \<and>
                      (pt < pj \<or> (pj = pt \<and> createdAt t < createdAt (items queue ! j)))"
        using pj by blast
    qed
    have c': "\<exists>i < length (items queue). items queue ! i = t \<and>
                (\<forall>j < i. status (items queue ! j) = ''pending'' \<longrightarrow>
                   (\<exists>pj. PRIORITY_ORDER (priority (items queue ! j)) = Some pj \<and>
                         (pt < pj \<or> (pj = pt \<and> createdAt t < createdAt (items queue ! j)))))"
      using i(1) i(2) c by blast
    have "PRIORITY_ORDER (priority t) = Some pt \<and>
                  (\<forall>u \<in> set (items queue). status u = ''pending'' \<longrightarrow>
                     (\<exists>pu. PRIORITY_ORDER (priority u) = Some pu \<and> pt \<le> pu \<and>
                           (pu = pt \<longrightarrow> createdAt t \<le> createdAt u))) \<and>
                  (\<exists>i < length (items queue). items queue ! i = t \<and>
                     (\<forall>j < i. status (items queue ! j) = ''pending'' \<longrightarrow>
                        (\<exists>pj. PRIORITY_ORDER (priority (items queue ! j)) = Some pj \<and>
                              (pt < pj \<or> (pj = pt \<and> createdAt t < createdAt (items queue ! j))))))"
      using pt b c' by (intro conjI)
    then show "?S t" by (rule exI [of _ pt])
  qed
  have big: "getNextPending now d = (Inr ?r, d1) \<and>
      (?r = None \<longleftrightarrow> (\<forall>u \<in> set (items queue). status u \<noteq> ''pending'')) \<and>
      (\<forall>t. ?r = Some t \<longrightarrow> t \<in> set (items queue) \<and> status t = ''pending'') \<and>
      (?K \<longrightarrow> (\<forall>t. ?r = Some t \<longrightarrow> ?S t))"
    using g n m s by (intro conjI)
  show ?thesis by (rule exI [of _ ?r], rule big)
qed

theorem getNextPending_selects_witness:
  "read 50 three_task_disk = (Inr three_task_queue, three_task_disk) \<and>
   list_all (\<lambda>u. PRIORITY_ORDER (priority u) \<noteq> None) (items three_task_queue) \<and>
   getNextPending 50 three_task_disk = (Inr (Some (example_task ''b'' 11 ''high'')), three_task_disk)"
proof -
  let ?a = "example_task ''a'' 10 ''low''"
  let ?b = "example_task ''b'' 11 ''high''"
  let ?c = "example_task ''c'' 12 ''medium''"
  have it: "items three_task_queue = [?a, ?b, ?c]"
    by (simp add: three_task_queue_def)
  have p: "read_primary three_task_disk = Inr three_task_queue"
    by (simp add: three_task_disk_def read_primary_Json)
  have r: "read 50 three_task_disk = (Inr three_task_queue, three_task_disk)"
    by (rule read_parsed [OF p])
  have ka: "list_all (\<lambda>u. PRIORITY_ORDER (priority u) \<noteq> None) (items three_task_queue)"
    by (simp add: it example_task_def PRIORITY_ORDER_def)
  then have k: "\<forall>u \<in> set (items three_task_queue). status u = ''pending'' \<longrightarrow>
                  PRIORITY_ORDER (priority u) \<noteq> None"
    by (simp add: list_all_iff)
  obtain res where g: "getNextPending 50 three_task_disk = (Inr res, three_task_disk)"
    and n: "res = None \<longleftrightarrow> (\<forall>u \<in> set (items three_task_queue). status u \<noteq> ''pending'')"
    and s: "(\<forall>u \<in> set (items three_task_queue). status u = ''pending'' \<longrightarrow>
                PRIORITY_ORDER (priority u) \<noteq> None) \<longrightarrow>
            (\<forall>t. res = Some t \<longrightarrow>
               (\<exists>pt. PRIORITY_ORDER (priority t) = Some pt \<and>
                  (\<forall>u \<in> set (items three_task_queue). status u = ''pending'' \<longrightarrow>
                     (\<exists>pu. PRIORITY_ORDER (priority u) = Some pu \<and> pt \<le> pu \<and>
                           (pu = pt \<longrightarrow> createdAt t \<le> createdAt u))) \<and>
                  (\<exists>i < length (items three_task_queue). items three_task_queue ! i = t \<and>
                     (\<forall>j < i. status (items three_task_queue ! j) = ''pending'' \<longrightarrow>
                        (\<exists>pj. PRIORITY_ORDER (priority (items three_task_queue ! j)) = Some pj \<and>
                              (pt < pj \<or> (pj = pt \<and>
                                 createdAt t < createdAt (items three_task_queue ! j))))))))"
    and m: "\<forall>t. res = Some t \<longrightarrow> t \<in> set (items three_task_queue) \<and> status t = ''pending''"
    using getNextPending_selects [OF r] by (elim exE conjE)
  have pb: "status ?b = ''pending''" by (simp add: example_task_def)
  have "res \<noteq> None" using n pb by (simp add: it)
  then obtain t where t: "res = Some t" by (cases res) simp_all
  have tm: "t \<in> set (items three_task_queue)" using m t by blast
  from s k t obtain pt where pt: "PRIORITY_ORDER (priority t) = Some pt"
    and l: "\<forall>u \<in> set (items three_task_queue). status u = ''pending'' \<longrightarrow>
               (\<exists>pu. PRIORITY_ORDER (priority u) = Some pu \<and> pt \<le> pu \<and>
                     (pu = pt \<longrightarrow> createdAt t \<le> createdAt u))"
    by blast
  have "?b \<in> set (items three_task_queue)" by (simp add: it)
  with l pb obtain pu where "PRIORITY_ORDER (priority ?b) = Some pu" and "pt \<le> pu" by blast
  then have le: "pt \<le> 0" by (simp add: example_task_def PRIORITY_ORDER_def)
  have "t = ?b"
    using tm pt le by (auto simp: it example_task_def PRIORITY_ORDER_def)
  then show ?thesis using g r t ka by simp
qed

text \<open>
  Claim C2 as the spec words it, for every queue state, fails. \<open>updateTask\<close> stores the priority \<open>urgent\<close> for the task \<open>b\<close> of
  the three-task document, which then holds a task of low priority, the task \<open>b\<close> and a
  task of medium priority, all pending. Every comparison with \<open>b\<close> is \<^verbatim>\<open>NaN\<close>, the
  neighbours compare as equal, and \<open>getNextPending\<close> returns the task of low priority
  while the one of medium priority is pending. With two pending tasks, \<open>urgent\<close> before
  \<open>high\<close>, every comparison is \<^verbatim>\<open>NaN\<close>: the comparator is consistent, the sort has to keep
  the order, and the task returned has no tier while one of the highest tier is pending.
\<close>

theorem getNextPending_unknown_priority:
  "updateTask 20 ''b'' [F_priority ''urgent''] three_task_disk
     = (Inr (Some ((example_task ''b'' 11 ''high'')\<lparr>priority := ''urgent'', updatedAt := 20\<rparr>)),
        urgent_disk) \<and>
   read 30 urgent_disk
     = (Inr \<lparr>version = 1, lastUpdated = 20,
             items = [example_task ''a'' 10 ''low'',
                      (example_task ''b'' 11 ''high'')\<lparr>priority := ''urgent'', updatedAt := 20\<rparr>,
                      example_task ''c'' 12 ''medium'']\<rparr>, urgent_disk) \<and>
   getNextPending 30 urgent_disk = (Inr (Some (example_task ''a'' 10 ''low'')), urgent_disk) \<and>
   status (example_task ''c'' 12 ''medium'') = ''pending'' \<and>
   PRIORITY_ORDER (priority (example_task ''a'' 10 ''low'')) = Some 2 \<and>
   PRIORITY_ORDER (priority (example_task ''c'' 12 ''medium'')) = Some 1 \<and>
   getNextPending 30 two_task_disk = (Inr (Some (example_task ''u'' 11 ''urgent'')), two_task_disk) \<and>
   PRIORITY_ORDER (priority (example_task ''u'' 11 ''urgent'')) = None \<and>
   status (example_task ''h'' 12 ''high'') = ''pending'' \<and>
   PRIORITY_ORDER (priority (example_task ''h'' 12 ''high'')) = Some 0"
proof -
  let ?a = "example_task ''a'' 10 ''low''"
  let ?b = "example_task ''b'' 11 ''high''"
  let ?b' = "?b\<lparr>priority := ''urgent'', updatedAt := 20\<rparr>"
  let ?c = "example_task ''c'' 12 ''medium''"
  let ?u = "example_task ''u'' 11 ''urgent''"
  let ?h = "example_task ''h'' 12 ''high''"
  let ?q' = "\<lparr>version = 1, lastUpdated = 20, items = [?a, ?b', ?c]\<rparr>"
  let ?q2 = "\<lparr>version = 1, lastUpdated = 12, items = [?u, ?h]\<rparr>"
  have it: "items three_task_queue = [?a, ?b, ?c]"
    by (simp add: three_task_queue_def)
  have p: "read_primary three_task_disk = Inr three_task_queue"
    by (simp add: three_task_disk_def read_primary_Json)
  have r: "read 20 three_task_disk = (Inr three_task_queue, three_task_disk)"
    by (rule read_parsed [OF p])
  have i: "findIndex (\<lambda>t. task_id t = ''b'') (items three_task_queue) = Some 1"
    by (simp add: it example_task_def)
  have f: "filter allowed [F_priority ''urgent''] = [F_priority ''urgent'']"
    by (simp add: allowed_cases VALID_UPDATE_FIELDS_def)
  have v: "case status_entry [F_priority ''urgent''] of None \<Rightarrow> True | Some s \<Rightarrow> s \<in> set VALID_STATUSES"
    by simp
  have t: "?b' = (fold assign [F_priority ''urgent''] (items three_task_queue ! 1))\<lparr>updatedAt := 20\<rparr>"
    by (simp add: it)
  obtain dd where w: "write_queue 20 (three_task_queue\<lparr>items := (items three_task_queue)[1 := ?b']\<rparr>)
                        three_task_disk = (Inr (), dd)"
    using write_returns by blast
  have u: "updateTask 20 ''b'' [F_priority ''urgent''] three_task_disk = (Inr (Some ?b'), dd)"
    by (rule updateTask_found [OF r i f v t w])
  then have dd: "urgent_disk = dd" by (simp add: urgent_disk_def)
  have "dd = snd (write_queue 20 (three_task_queue\<lparr>items := (items three_task_queue)[1 := ?b']\<rparr>)
                    three_task_disk)"
    by (simp only: w snd_conv)
  then have "dd QueuePath
          = Some (Json (three_task_queue\<lparr>items := (items three_task_queue)[1 := ?b'], lastUpdated := 20\<rparr>))"
    by (simp only: write_primary)
  then have st: "urgent_disk QueuePath = Some (Json ?q')"
    by (simp add: dd it three_task_queue_def)
  have p': "read_primary urgent_disk = Inr ?q'"
    using st by (rule read_primary_Json [where d = urgent_disk])
  have r': "read 30 urgent_disk = (Inr ?q', urgent_disk)"
    by (rule read_parsed [OF p'])
  have g: "getNextPending 30 urgent_disk = (Inr (Some ?a), urgent_disk)"
    by (simp add: getNextPending_result [OF r'] example_task_def
        CompareArrayElements_def compare_tasks_def subtract_def PRIORITY_ORDER_def)
  have p2: "read_primary two_task_disk = Inr ?q2"
    by (simp add: two_task_disk_def read_primary_Json)
  have r2: "read 30 two_task_disk = (Inr ?q2, two_task_disk)"
    by (rule read_parsed [OF p2])
  have g2: "getNextPending 30 two_task_disk = (Inr (Some ?u), two_task_disk)"
    by (simp add: getNextPending_result [OF r2] example_task_def
        CompareArrayElements_def compare_tasks_def subtract_def PRIORITY_ORDER_def)
  have e: "status ?c = ''pending'' \<and> PRIORITY_ORDER (priority ?a) = Some 2 \<and>
      PRIORITY_ORDER (priority ?c) = Some 1 \<and> PRIORITY_ORDER (priority ?u) = None \<and>
      status ?h = ''pending'' \<and> PRIORITY_ORDER (priority ?h) = Some 0"
    by (simp add: example_task_def PRIORITY_ORDER_def)
  show ?thesis using u [unfolded dd [symmetric]] r' g g2 e by (intro conjI) simp_all
qed

section \<open>Activity entries\<close>

lemma updateTask_Some:
  assumes "updateTask now tid updates d = (Inr (Some task'), d2)"
  shows "\<exists>queue d1 index.
           read now d = (Inr queue, d1) \<and>
           findIndex (\<lambda>t. task_id t = tid) (items queue) = Some index \<and>
           task' = (fold assign (filter allowed updates) (items queue ! index))\<lparr>updatedAt := now\<rparr> \<and>
           d2 = snd (write_queue now (queue\<lparr>items := (items queue)[index := task']\<rparr>) d1)"
proof -
  obtain r d1 where rd: "read now d = (r, d1)" by (cases "read now d")
  obtain queue where r: "r = Inr queue"
    using read_returns [of now d] rd by auto
  obtain index where ix: "findIndex (\<lambda>t. task_id t = tid) (items queue) = Some index"
    using assms by (cases "findIndex (\<lambda>t. task_id t = tid) (items queue)")
      (simp_all add: updateTask_def rd r)
  let ?t = "(fold assign (filter allowed updates) (items queue ! index))\<lparr>updatedAt := now\<rparr>"
  obtain dd where w: "write_queue now (queue\<lparr>items := (items queue)[index := ?t]\<rparr>) d1 = (Inr (), dd)"
    using write_returns by blast
  have "task' = ?t \<and> d2 = dd"
    using assms by (simp add: updateTask_def rd r ix Let_def w split: if_splits)
  then have "task' = ?t \<and> d2 = snd (write_queue now (queue\<lparr>items := (items queue)[index := task']\<rparr>) d1)"
    by (simp add: w)
  then show ?thesis using rd r ix by blast
qed

lemma find_list_update:
  "findIndex P as = Some i \<Longrightarrow> P b \<Longrightarrow> find P (as[i := b]) = Some b"
proof (induction as arbitrary: i)
  case Nil
  then show ?case by simp
next
  case (Cons a as)
  show ?case
  proof (cases "P a")
    case True
    then show ?thesis using Cons.prems by simp
  next
    case False
    then obtain j where j: "findIndex P as = Some j" "i = Suc j"
      using Cons.prems by auto
    then show ?thesis using Cons.IH [OF j(1) Cons.prems(2)] False by simp
  qed
qed

lemma getTask_stored:
  assumes "d QueuePath = Some (Json q)"
  shows "getTask now tid d = (Inr (find (\<lambda>t. task_id t = tid) (items q)), d)"
proof -
  have "read_primary d = Inr q"
    using assms by (rule read_primary_Json [where d = d and q = q])
  then show ?thesis by (simp add: getTask_def read_parsed)
qed

lemma getTask_after_update:
  assumes "updateTask now tid updates d = (Inr (Some task'), d2)"
  shows "getTask now' tid d2 = (Inr (Some task'), d2)"
proof -
  from updateTask_Some [OF assms] obtain queue d1 index where
    ix: "findIndex (\<lambda>t. task_id t = tid) (items queue) = Some index"
    and t': "task' = (fold assign (filter allowed updates) (items queue ! index))\<lparr>updatedAt := now\<rparr>"
    and d2: "d2 = snd (write_queue now (queue\<lparr>items := (items queue)[index := task']\<rparr>) d1)"
    by blast
  have al: "\<forall>f \<in> set (filter allowed updates). allowed f" by simp
  have "task_id task' = task_id (items queue ! index)"
    using fold_assign_frame [OF al, of "items queue ! index"] by (simp add: t')
  then have id: "task_id task' = tid"
    using findIndex_Some [OF ix] by simp
  have st: "d2 QueuePath = Some (Json (queue\<lparr>items := (items queue)[index := task'], lastUpdated := now\<rparr>))"
    by (simp add: d2 write_primary)
  have g: "getTask now' tid d2
      = (Inr (find (\<lambda>t. task_id t = tid)
           (items (queue\<lparr>items := (items queue)[index := task'], lastUpdated := now\<rparr>))), d2)"
    using st by (rule getTask_stored [where d = d2])
  show ?thesis
    using find_list_update [OF ix, of task'] id by (simp add: g)
qed

lemma put_task_200:
  assumes "put_task now tid updates srv = ((200, TaskJson task), srv')"
  shows "updateTask now tid updates (files srv) = (Inr (Some task), files srv') \<and>
         taskActivity srv' =
           (if status task \<noteq> ''in_progress'' then (taskActivity srv)(tid := None) else taskActivity srv)"
  using assms
  by (auto simp: put_task_def Let_def broadcast_def split: if_splits prod.splits sum.splits option.splits)

lemma cancel_200:
  assumes "cancel now tid srv = ((200, TaskJson task), srv')"
  shows "updateTask now tid [F_status ''done''] (files srv) = (Inr (Some task), files srv') \<and>
         taskActivity srv' = (taskActivity srv)(tid := None)"
  using assms
  by (auto simp: cancel_def Let_def broadcast_def split: prod.splits sum.splits option.splits)

lemma get_activity_found:
  assumes "getTask now tid (files srv) = (Inr (Some task), d)"
  shows "fst (get_activity now tid srv)
           = (200, EntriesJson (case taskActivity srv tid of None \<Rightarrow> [] | Some es \<Rightarrow> es))"
  by (simp add: get_activity_def assms)

text \<open>
  Claim C9, as amended. When the update route (\<open>PUT /api/tasks/:id\<close>) answers 200 with a
  task whose status is not \<open>in_progress\<close>, and when the cancel route answers 200, the
  task's entry in \<open>taskActivity\<close> is gone and the next read of the task's activity
  answers 200 with no entries.
\<close>

theorem activity_discarded_by_update_and_cancel:
  "(put_task now tid updates srv = ((200, TaskJson task), srv') \<and> status task \<noteq> ''in_progress'' \<longrightarrow>
      taskActivity srv' tid = None \<and> fst (get_activity now' tid srv') = (200, EntriesJson [])) \<and>
   (cancel now tid srv = ((200, TaskJson task), srv') \<longrightarrow>
      taskActivity srv' tid = None \<and> fst (get_activity now' tid srv') = (200, EntriesJson []))"
proof (intro conjI impI)
  assume a: "put_task now tid updates srv = ((200, TaskJson task), srv') \<and> status task \<noteq> ''in_progress''"
  then have u: "updateTask now tid updates (files srv) = (Inr (Some task), files srv')"
    and ta: "taskActivity srv' = (taskActivity srv)(tid := None)"
    using put_task_200 [of now tid updates srv task srv'] by simp_all
  show "taskActivity srv' tid = None" by (simp add: ta)
  show "fst (get_activity now' tid srv') = (200, EntriesJson [])"
    using get_activity_found [OF getTask_after_update [OF u]] by (simp add: ta)
next
  assume a: "cancel now tid srv = ((200, TaskJson task), srv')"
  then have u: "updateTask now tid [F_status ''done''] (files srv) = (Inr (Some task), files srv')"
    and ta: "taskActivity srv' = (taskActivity srv)(tid := None)"
    using cancel_200 [of now tid srv task srv'] by simp_all
  show "taskActivity srv' tid = None" by (simp add: ta)
  show "fst (get_activity now' tid srv') = (200, EntriesJson [])"
    using get_activity_found [OF getTask_after_update [OF u]] by (simp add: ta)
qed

lemma put_task_stored:
  assumes "files srv QueuePath = Some (Json q)"
    and "findIndex (\<lambda>t. task_id t = tid) (items q) = Some i"
    and "case status_entry updates of None \<Rightarrow> True | Some s \<Rightarrow> s \<in> set VALID_STATUSES"
    and "t' = (fold assign (filter allowed updates) (items q ! i))\<lparr>updatedAt := now\<rparr>"
  shows "\<exists>srv'. put_task now tid updates srv = ((200, TaskJson t'), srv') \<and>
           files srv' QueuePath = Some (Json (q\<lparr>items := (items q)[i := t'], lastUpdated := now\<rparr>)) \<and>
           taskActivity srv' =
             (if status t' \<noteq> ''in_progress'' then (taskActivity srv)(tid := None) else taskActivity srv)"
proof -
  have p: "read_primary (files srv) = Inr q"
    using assms(1) by (rule read_primary_Json [where d = "files srv"])
  have r: "read now (files srv) = (Inr q, files srv)"
    by (rule read_parsed [OF p])
  obtain dd where w: "write_queue now (q\<lparr>items := (items q)[i := t']\<rparr>) (files srv) = (Inr (), dd)"
    using write_returns by blast
  have dq: "dd QueuePath = Some (Json (q\<lparr>items := (items q)[i := t'], lastUpdated := now\<rparr>))"
    using write_primary [of now "q\<lparr>items := (items q)[i := t']\<rparr>" "files srv"] by (simp add: w)
  have v: "case status_entry (filter allowed updates) of None \<Rightarrow> True | Some s \<Rightarrow> s \<in> set VALID_STATUSES"
    using assms(3) by (simp add: status_entry_filter)
  have u: "updateTask now tid updates (files srv) = (Inr (Some t'), dd)"
    by (rule updateTask_found [OF r assms(2) refl v assms(4) w])
  have c: "\<not> (case status_entry updates of None \<Rightarrow> False | Some s \<Rightarrow> s \<notin> set VALID_STATUSES)"
    using assms(3) by (simp split: option.splits)
  show ?thesis
    using c dq by (simp add: put_task_def u Let_def broadcast_def)
qed

lemma cancel_stored:
  assumes "files srv QueuePath = Some (Json q)"
    and "findIndex (\<lambda>t. task_id t = tid) (items q) = Some i"
    and "t' = (items q ! i)\<lparr>status := ''done'', updatedAt := now\<rparr>"
  shows "\<exists>srv'. cancel now tid srv = ((200, TaskJson t'), srv') \<and>
           files srv' QueuePath = Some (Json (q\<lparr>items := (items q)[i := t'], lastUpdated := now\<rparr>)) \<and>
           taskActivity srv' = (taskActivity srv)(tid := None)"
proof -
  have p: "read_primary (files srv) = Inr q"
    using assms(1) by (rule read_primary_Json [where d = "files srv"])
  have r: "read now (files srv) = (Inr q, files srv)"
    by (rule read_parsed [OF p])
  obtain dd where w: "write_queue now (q\<lparr>items := (items q)[i := t']\<rparr>) (files srv) = (Inr (), dd)"
    using write_returns by blast
  have dq: "dd QueuePath = Some (Json (q\<lparr>items := (items q)[i := t'], lastUpdated := now\<rparr>))"
    using write_primary [of now "q\<lparr>items := (items q)[i := t']\<rparr>" "files srv"] by (simp add: w)
  have f: "filter allowed [F_status ''done''] = [F_status ''done'']"
    by (simp add: allowed_cases)
  have v: "case status_entry [F_status ''done''] of None \<Rightarrow> True | Some s \<Rightarrow> s \<in> set VALID_STATUSES"
    by (simp add: VALID_STATUSES_def)
  have t: "t' = (fold assign [F_status ''done''] (items q ! i))\<lparr>updatedAt := now\<rparr>"
    by (simp add: assms(3))
  have u: "updateTask now tid [F_status ''done''] (files srv) = (Inr (Some t'), dd)"
    by (rule updateTask_found [OF r assms(2) f v t w])
  show ?thesis
    using dq by (simp add: cancel_def u Let_def broadcast_def)
qed

lemma post_activity_stored:
  assumes "files srv QueuePath = Some (Json q)"
    and "find (\<lambda>t. task_id t = tid) (items q) = Some t"
    and "ty \<in> set VALID_ACTIVITY_TYPES"
  shows "files (snd (post_activity now tid ty summ srv)) = files srv \<and>
         taskActivity (snd (post_activity now tid ty summ srv)) tid
           = Some ((case taskActivity srv tid of None \<Rightarrow> [] | Some es \<Rightarrow> es)
                     @ [\<lparr>ac_timestamp = now, ac_type = ty, summary = summ\<rparr>])"
proof -
  have g: "getTask now tid (files srv) = (Inr (Some t), files srv)"
    using getTask_stored [where d = "files srv", OF assms(1)] assms(2) by simp
  have ne: "ty \<noteq> []" using assms(3) by (auto simp: VALID_ACTIVITY_TYPES_def)
  show ?thesis
    using assms(3) ne by (simp add: post_activity_def g Let_def broadcast_def)
qed

lemma after_screenshot_stored:
  assumes "files srv QueuePath = Some (Json q)"
    and "findIndex (\<lambda>t. task_id t = tid) (items q) = Some i"
    and "isValidPngBase64 png"
    and "t' = (items q ! i)\<lparr>afterScreenshot := Some (''.review/screenshots/'' @ tid @ ''-after.png''),
                              updatedAt := now\<rparr>"
  shows "\<exists>srv'. after_screenshot now tid png srv = ((200, TaskJson t'), srv') \<and>
           files srv' QueuePath = Some (Json (q\<lparr>items := (items q)[i := t'], lastUpdated := now\<rparr>)) \<and>
           taskActivity srv' = taskActivity srv"
proof -
  let ?d2 = "(files srv)(Screenshot (tid @ ''-after.png'') \<mapsto> Bytes (Buffer_from_base64 png))"
  have p: "read_primary (files srv) = Inr q"
    using assms(1) by (rule read_primary_Json [where d = "files srv"])
  have r: "read now (files srv) = (Inr q, files srv)"
    by (rule read_parsed [OF p])
  obtain dd where w: "write_queue now (q\<lparr>items := (items q)[i := t']\<rparr>) ?d2 = (Inr (), dd)"
    using write_returns by blast
  have dq: "dd QueuePath = Some (Json (q\<lparr>items := (items q)[i := t'], lastUpdated := now\<rparr>))"
    using write_primary [of now "q\<lparr>items := (items q)[i := t']\<rparr>" ?d2] by (simp add: w)
  have ne: "png \<noteq> []" using assms(3) by (auto simp: isValidPngBase64_def)
  have s: "saveAfterScreenshot now tid png (files srv) = (Inr (Some t'), dd)"
    using w by (simp add: saveAfterScreenshot_def assms(3) r assms(2) writeFile_def Let_def assms(4))
  show ?thesis
    using dq ne by (simp add: after_screenshot_def s broadcast_def)
qed

lemma get_activity_stored:
  assumes "files srv QueuePath = Some (Json q)"
    and "find (\<lambda>t. task_id t = tid) (items q) = Some t"
  shows "fst (get_activity now tid srv)
           = (200, EntriesJson (case taskActivity srv tid of None \<Rightarrow> [] | Some es \<Rightarrow> es))"
proof -
  have g: "getTask now tid (files srv) = (Inr (Some t), files srv)"
    using getTask_stored [where d = "files srv", OF assms(1)] assms(2) by simp
  show ?thesis by (rule get_activity_found [OF g])
qed

lemma test_png_valid: "isValidPngBase64 test_png"
  by (simp add: isValidPngBase64_def test_png_def Buffer_from_base64_def unbase64_def base64_alphabet_def)

theorem activity_discarded_by_update_and_cancel_witness:
  "(\<exists>task srv'. put_task 30 ''t1'' [F_status ''review''] running = ((200, TaskJson task), srv') \<and>
       status task \<noteq> ''in_progress'' \<and> taskActivity running ''t1'' \<noteq> None \<and>
       taskActivity srv' ''t1'' = None \<and> fst (get_activity 31 ''t1'' srv') = (200, EntriesJson [])) \<and>
   (\<exists>task srv'. cancel 30 ''t1'' running = ((200, TaskJson task), srv') \<and>
       taskActivity srv' ''t1'' = None \<and> fst (get_activity 31 ''t1'' srv') = (200, EntriesJson []))"
proof -
  let ?t = "(example_task ''t1'' 10 ''medium'')\<lparr>status := ''in_progress'', updatedAt := 20\<rparr>"
  let ?q = "\<lparr>version = 1, lastUpdated = 20, items = [?t]\<rparr>"
  have f: "files running QueuePath = Some (Json ?q)"
    by (simp add: running_def)
  have i: "findIndex (\<lambda>t. task_id t = ''t1'') (items ?q) = Some 0"
    by (simp add: example_task_def)
  have a: "taskActivity running ''t1'' \<noteq> None"
    by (simp add: running_def)
  have v: "case status_entry [F_status ''review''] of None \<Rightarrow> True | Some s \<Rightarrow> s \<in> set VALID_STATUSES"
    by (simp add: VALID_STATUSES_def)
  obtain s1 where p: "put_task 30 ''t1'' [F_status ''review''] running
        = ((200, TaskJson ((fold assign (filter allowed [F_status ''review'']) (items ?q ! 0))\<lparr>updatedAt := 30\<rparr>)), s1)"
    using put_task_stored [OF f i v refl, of 30] by blast
  let ?t1 = "(fold assign (filter allowed [F_status ''review'']) (items ?q ! 0))\<lparr>updatedAt := 30\<rparr>"
  have st: "status ?t1 \<noteq> ''in_progress''"
    by (simp add: allowed_cases)
  have one: "taskActivity s1 ''t1'' = None \<and> fst (get_activity 31 ''t1'' s1) = (200, EntriesJson [])"
    using activity_discarded_by_update_and_cancel
      [of 30 "''t1''" "[F_status ''review'']" running ?t1 s1 31] p st by blast
  obtain s2 where c: "cancel 30 ''t1'' running
        = ((200, TaskJson ((items ?q ! 0)\<lparr>status := ''done'', updatedAt := 30\<rparr>)), s2)"
    using cancel_stored [OF f i refl, of 30] by blast
  have two: "taskActivity s2 ''t1'' = None \<and> fst (get_activity 31 ''t1'' s2) = (200, EntriesJson [])"
    using activity_discarded_by_update_and_cancel
      [of 30 "''t1''" "[F_status ''review'']" running "(items ?q ! 0)\<lparr>status := ''done'', updatedAt := 30\<rparr>" s2 31] c
    by blast
  show ?thesis using p st a one c two by blast
qed

text \<open>
  The claim as stated fails on the route that saves an after-screenshot. The server starts
  with one pending task; the watcher claims it and posts an activity entry; the agent sets
  the status to \<open>review\<close>, which discards the entries; the watcher then posts the agent's
  closing \<open>result\<close> record. Saving an after-screenshot now updates the task (it answers 200
  with the task, whose status is \<open>review\<close>, and broadcasts \<open>task_updated\<close>), and the
  activity read next still holds the entry.
\<close>

theorem after_screenshot_keeps_activity:
  "\<exists>task srv'. after_screenshot 30 ''t1'' test_png reviewed = ((200, TaskJson task), srv') \<and>
      status task = ''review'' \<and> status task \<noteq> ''in_progress'' \<and>
      fst (get_activity 31 ''t1'' srv')
        = (200, EntriesJson [\<lparr>ac_timestamp = 23, ac_type = ''result'', summary = ''Complete''\<rparr>]) \<and>
      fst (get_activity 31 ''t1'' srv') \<noteq> (200, EntriesJson [])"
proof -
  let ?t0 = "example_task ''t1'' 10 ''medium''"
  let ?t1 = "?t0\<lparr>status := ''in_progress'', updatedAt := 20\<rparr>"
  let ?q1 = "one_task_queue\<lparr>items := [?t1], lastUpdated := 20\<rparr>"
  let ?t3 = "?t1\<lparr>status := ''review'', agentNotes := ''Fixed'', updatedAt := 22\<rparr>"
  let ?q3 = "?q1\<lparr>items := [?t3], lastUpdated := 22\<rparr>"
  let ?t5 = "?t3\<lparr>afterScreenshot := Some (''.review/screenshots/'' @ ''t1'' @ ''-after.png''), updatedAt := 30\<rparr>"
  let ?q5 = "?q3\<lparr>items := [?t5], lastUpdated := 30\<rparr>"
  let ?e = "\<lparr>ac_timestamp = 23, ac_type = ''result'', summary = ''Complete''\<rparr>"
  have f0: "files fresh QueuePath = Some (Json one_task_queue)"
    by (simp add: fresh_def one_task_disk_def)
  have i0: "findIndex (\<lambda>t. task_id t = ''t1'') (items one_task_queue) = Some 0"
    by (simp add: one_task_queue_def example_task_def)
  have v1: "case status_entry [F_status ''in_progress''] of None \<Rightarrow> True | Some s \<Rightarrow> s \<in> set VALID_STATUSES"
    by (simp add: VALID_STATUSES_def)
  have t1: "?t1 = (fold assign (filter allowed [F_status ''in_progress'']) (items one_task_queue ! 0))\<lparr>updatedAt := 20\<rparr>"
    by (simp add: allowed_cases one_task_queue_def)
  have f1: "files claimed QueuePath = Some (Json ?q1)"
    using put_task_stored [OF f0 i0 v1 t1] by (auto simp: claimed_def one_task_queue_def)
  have n1: "find (\<lambda>t. task_id t = ''t1'') (items ?q1) = Some ?t1"
    by (simp add: example_task_def)
  have ty: "''tool_start'' \<in> set VALID_ACTIVITY_TYPES" "''result'' \<in> set VALID_ACTIVITY_TYPES"
    by (simp_all add: VALID_ACTIVITY_TYPES_def)
  have f2: "files working QueuePath = Some (Json ?q1)"
    using post_activity_stored [OF f1 n1 ty(1), of 21 "''Reading src/App.tsx''"] f1
    by (simp add: working_def)
  have i2: "findIndex (\<lambda>t. task_id t = ''t1'') (items ?q1) = Some 0"
    by (simp add: example_task_def)
  have v3: "case status_entry [F_status ''review'', F_agentNotes ''Fixed''] of
              None \<Rightarrow> True | Some s \<Rightarrow> s \<in> set VALID_STATUSES"
    by (simp add: VALID_STATUSES_def)
  have t3: "?t3 = (fold assign (filter allowed [F_status ''review'', F_agentNotes ''Fixed'']) (items ?q1 ! 0))\<lparr>updatedAt := 22\<rparr>"
    by (simp add: allowed_cases)
  have s3: "status ?t3 \<noteq> ''in_progress''" by simp
  have f3: "files finished QueuePath = Some (Json ?q3) \<and> taskActivity finished ''t1'' = None"
    using put_task_stored [OF f2 i2 v3 t3] s3 by (auto simp: finished_def)
  have n3: "find (\<lambda>t. task_id t = ''t1'') (items ?q3) = Some ?t3"
    by (simp add: example_task_def)
  have f4: "files reviewed QueuePath = Some (Json ?q3) \<and> taskActivity reviewed ''t1'' = Some [?e]"
    using post_activity_stored [OF conjunct1 [OF f3] n3 ty(2), of 23 "''Complete''"] f3
    by (simp add: reviewed_def)
  have i4: "findIndex (\<lambda>t. task_id t = ''t1'') (items ?q3) = Some 0"
    by (simp add: example_task_def)
  have t5: "?t5 = (items ?q3 ! 0)\<lparr>afterScreenshot := Some (''.review/screenshots/'' @ ''t1'' @ ''-after.png''),
                                    updatedAt := 30\<rparr>"
    by simp
  obtain s5 where a: "after_screenshot 30 ''t1'' test_png reviewed = ((200, TaskJson ?t5), s5)"
    and f5: "files s5 QueuePath = Some (Json ?q5)"
    and a5: "taskActivity s5 = taskActivity reviewed"
    using after_screenshot_stored [OF conjunct1 [OF f4] i4 test_png_valid t5] by auto
  have n5: "find (\<lambda>t. task_id t = ''t1'') (items ?q5) = Some ?t5"
    by (simp add: example_task_def)
  have g: "fst (get_activity 31 ''t1'' s5) = (200, EntriesJson [?e])"
    using get_activity_stored [OF f5 n5, of 31] f4 by (simp add: a5)
  have st: "status ?t5 = ''review''" by simp
  show ?thesis using a g st by auto
qed

section \<open>The dispatch loop\<close>

subsection \<open>The example states\<close>

lemma example_task_fields:
  "task_id (example_task tid now p) = tid"
  "attempts (example_task tid now p) = []"
  "status (example_task tid now p) = ''pending''"
  "priority (example_task tid now p) = p"
  "createdAt (example_task tid now p) = now"
  by (simp_all add: example_task_def)

lemma retried_fields:
  "task_id retried = ''t1''" "length (attempts retried) = 2" "status retried = ''pending''"
  "priority retried = ''high''" "createdAt retried = 10"
  by (simp_all add: retried_def example_task_fields)

lemma init_two:
  "init [''t1'', ''t2''] =
     \<lparr>pendingQueue = [''t1'', ''t2''], processing = True, currentProcess = None,
      currentTaskId = None, stopped = False, suspended = [AwaitNext], children = [],
      timers = 0, effects = [Fetch GET_next]\<rparr>"
  by (simp add: init_def idle_def kickProcessing_def Let_def)

lemma agent_running_state:
  "agent_running =
     \<lparr>pendingQueue = [''t2''], processing = True, currentProcess = Some ''t1'',
      currentTaskId = Some ''t1'', stopped = False,
      suspended = [AwaitExit (example_task ''t1'' 10 ''medium'')], children = [''t1''],
      timers = 0,
      effects = [Fetch GET_next, Fetch (PUT_status ''t1'' ''in_progress''), Spawn ''t1'']\<rparr>"
  by (simp add: agent_running_def run_def init_two after_next_def after_claim_def fetchJSON_def
      processTask_def resumed_def example_task_fields
      reached_max_retries_def)

lemma agent_exited_state:
  "agent_exited =
     \<lparr>pendingQueue = [''t2''], processing = True, currentProcess = None,
      currentTaskId = Some ''t1'', stopped = False,
      suspended = [AwaitVerify (example_task ''t1'' 10 ''medium'')], children = [],
      timers = 0,
      effects = [Fetch GET_next, Fetch (PUT_status ''t1'' ''in_progress''), Spawn ''t1'',
                 Fetch (GET_task ''t1'')]\<rparr>"
  by (simp add: agent_exited_def agent_running_state after_exit_def resumed_def example_task_fields)

lemma agent_claiming_state:
  "agent_claiming =
     \<lparr>pendingQueue = [''t2''], processing = True, currentProcess = None,
      currentTaskId = Some ''t1'', stopped = False,
      suspended = [AwaitClaim (example_task ''t1'' 10 ''medium'')], children = [],
      timers = 0,
      effects = [Fetch GET_next, Fetch (PUT_status ''t1'' ''in_progress'')]\<rparr>"
  by (simp add: agent_claiming_def run_def init_two after_next_def fetchJSON_def
      processTask_def resumed_def example_task_fields reached_max_retries_def)

subsection \<open>One call of kickProcessing at a time\<close>

lemma nth_opt_Some: "nth_opt as i = Some a \<Longrightarrow> i < length as \<and> as ! i = a"
  by (induction as i rule: nth_opt.induct) auto

lemma nth_opt_single: "nth_opt [c] i = Some a \<longleftrightarrow> i = 0 \<and> a = c"
  by (cases i) auto

lemma single_flight_iff:
  "single_flight w \<longleftrightarrow>
     (suspended w = [] \<and> \<not> processing w \<and> children w = []) \<or>
     (\<exists>c. suspended w = [c] \<and> processing w \<and> children w = agent_of c)"
  by (auto simp: single_flight_def split: list.splits)

lemma single_flight_idle:
  "single_flight w \<Longrightarrow> \<not> processing w \<Longrightarrow> suspended w = [] \<and> children w = []"
  by (auto simp: single_flight_iff)

lemma single_flight_busy:
  "single_flight w \<Longrightarrow> processing w \<Longrightarrow> \<exists>c. suspended w = [c] \<and> children w = agent_of c"
  by (auto simp: single_flight_iff)

lemma single_flight_kickProcessing:
  "single_flight w \<Longrightarrow> single_flight (kickProcessing w)"
  by (auto simp: single_flight_iff kickProcessing_def)

lemma single_flight_enqueue:
  "single_flight w \<Longrightarrow> single_flight (enqueue tid w)"
proof -
  assume s: "single_flight w"
  have "single_flight (w\<lparr>pendingQueue := pendingQueue w @ [tid]\<rparr>)"
    using s by (simp add: single_flight_iff)
  then show ?thesis
    using s by (simp add: enqueue_def single_flight_kickProcessing)
qed

lemma single_flight_fold_enqueue:
  "single_flight w \<Longrightarrow> single_flight (fold (\<lambda>task. enqueue (task_id task)) ts w)"
  by (induction ts arbitrary: w) (simp_all add: single_flight_enqueue)

lemma single_flight_returned:
  "suspended w = [] \<Longrightarrow> children w = [] \<Longrightarrow> single_flight (returned w)"
  by (simp add: single_flight_iff returned_def)

lemma single_flight_completed:
  "suspended w = [] \<Longrightarrow> children w = [] \<Longrightarrow> single_flight (completed w)"
  by (simp add: single_flight_iff completed_def kickProcessing_def Let_def)

lemma single_flight_after_next:
  assumes "suspended w = []" and "children w = []" and "processing w"
  shows "single_flight (after_next m r w)"
  using assms
  by (auto simp: after_next_def fetchJSON_def retry_later_def processTask_def
      single_flight_returned single_flight_iff returned_def
      split: net.splits body.splits)

lemma single_flight_after_claim:
  assumes "suspended w = []" and "children w = []" and "processing w"
  shows "single_flight (after_claim task r w)"
proof (cases r)
  case (Failed msg)
  have "single_flight (completed (w\<lparr>currentTaskId := None\<rparr>))"
    using assms by (intro single_flight_completed) simp_all
  then show ?thesis using Failed by (simp add: after_claim_def fetchJSON_def)
next
  case (Responded code b)
  then show ?thesis
    using assms by (simp add: after_claim_def fetchJSON_def single_flight_iff)
qed

lemma single_flight_after_exit:
  assumes "suspended w = []" and "children w = [task_id task]" and "processing w"
  shows "single_flight (after_exit closed task w)"
  using assms by (simp add: after_exit_def single_flight_iff)

lemma single_flight_finish:
  assumes "suspended w = []" and "children w = []"
  shows "single_flight (finish w)"
  unfolding finish_def using assms by (intro single_flight_completed) simp_all

lemma single_flight_after_verify:
  assumes "suspended w = []" and "children w = []" and "processing w"
  shows "single_flight (after_verify task r w)"
proof -
  have f: "single_flight (finish w)" by (rule single_flight_finish [OF assms(1,2)])
  have g: "single_flight (w\<lparr>effects := effects w @ [Fetch (PUT_status (task_id task) ''pending'')],
                  suspended := suspended w @ [AwaitReset task]\<rparr>)"
    using assms by (simp add: single_flight_iff)
  show ?thesis
    using f g by (simp add: after_verify_def fetchJSON_def split: net.splits body.splits)
qed

lemma single_flight_resumed:
  assumes "single_flight w" and "nth_opt (suspended w) i = Some c"
  shows "suspended (resumed i w) = []" and "children (resumed i w) = agent_of c"
    and "processing (resumed i w)"
proof -
  have ne: "suspended w \<noteq> []" using assms(2) by auto
  then obtain c' where c': "suspended w = [c']" "processing w" "children w = agent_of c'"
    using assms(1) by (auto simp: single_flight_iff)
  have ic: "i = 0 \<and> c = c'" using assms(2) by (simp add: c'(1) nth_opt_single)
  show "suspended (resumed i w) = []" using ic c' by (simp add: resumed_def)
  show "children (resumed i w) = agent_of c" using ic c' by (simp add: resumed_def)
  show "processing (resumed i w)" using c' by (simp add: resumed_def)
qed

lemma single_flight_step:
  assumes "single_flight w"
  shows "single_flight (step m ev w)"
proof (cases ev)
  case (Sse_task_created task)
  then show ?thesis using assms by (simp add: single_flight_enqueue)
next
  case (Sse_task_updated task)
  then show ?thesis using assms by (simp add: single_flight_enqueue)
next
  case (Sse_task_deleted tid)
  then show ?thesis using assms by (simp add: single_flight_iff)
next
  case (Sse_task_cancel tid)
  then show ?thesis using assms by (simp add: single_flight_iff)
next
  case (Resynced tasks)
  then show ?thesis using assms by (simp add: single_flight_fold_enqueue)
next
  case Timer_fired
  show ?thesis
  proof (cases "timers w")
    case 0
    then show ?thesis using assms Timer_fired by simp
  next
    case (Suc n)
    have "single_flight (w\<lparr>timers := n\<rparr>)" using assms by (simp add: single_flight_iff)
    then show ?thesis using Timer_fired Suc by (simp add: single_flight_kickProcessing)
  qed
next
  case Stop
  then show ?thesis using assms by (simp add: single_flight_iff)
next
  case (Next_settled i r)
  show ?thesis
  proof (cases "nth_opt (suspended w) i")
    case None
    then show ?thesis using assms Next_settled by simp
  next
    case (Some c)
    note r = single_flight_resumed [OF assms Some]
    show ?thesis
    proof (cases c)
      case AwaitNext
      have "single_flight (after_next m r (resumed i w))"
        by (rule single_flight_after_next [OF r(1) _ r(3)]) (simp add: r(2) AwaitNext)
      then show ?thesis using Next_settled Some AwaitNext by simp
    qed (use assms Next_settled Some in simp_all)
  qed
next
  case (Claim_settled i r)
  show ?thesis
  proof (cases "nth_opt (suspended w) i")
    case None
    then show ?thesis using assms Claim_settled by simp
  next
    case (Some c)
    note r = single_flight_resumed [OF assms Some]
    show ?thesis
    proof (cases c)
      case (AwaitClaim task)
      have "single_flight (after_claim task r (resumed i w))"
        by (rule single_flight_after_claim [OF r(1) _ r(3)]) (simp add: r(2) AwaitClaim)
      then show ?thesis using Claim_settled Some AwaitClaim by simp
    qed (use assms Claim_settled Some in simp_all)
  qed
next
  case (Child_closed i)
  show ?thesis
  proof (cases "nth_opt (suspended w) i")
    case None
    then show ?thesis using assms Child_closed by simp
  next
    case (Some c)
    note r = single_flight_resumed [OF assms Some]
    show ?thesis
    proof (cases c)
      case (AwaitExit task)
      have "single_flight (after_exit True task (resumed i w))"
        by (rule single_flight_after_exit [OF r(1) _ r(3)]) (simp add: r(2) AwaitExit)
      then show ?thesis using Child_closed Some AwaitExit by simp
    qed (use assms Child_closed Some in simp_all)
  qed
next
  case (Child_error i)
  show ?thesis
  proof (cases "nth_opt (suspended w) i")
    case None
    then show ?thesis using assms Child_error by simp
  next
    case (Some c)
    note r = single_flight_resumed [OF assms Some]
    show ?thesis
    proof (cases c)
      case (AwaitExit task)
      have "single_flight (after_exit False task (resumed i w))"
        by (rule single_flight_after_exit [OF r(1) _ r(3)]) (simp add: r(2) AwaitExit)
      then show ?thesis using Child_error Some AwaitExit by simp
    qed (use assms Child_error Some in simp_all)
  qed
next
  case (Verify_settled i r)
  show ?thesis
  proof (cases "nth_opt (suspended w) i")
    case None
    then show ?thesis using assms Verify_settled by simp
  next
    case (Some c)
    note r = single_flight_resumed [OF assms Some]
    show ?thesis
    proof (cases c)
      case (AwaitVerify task)
      have "single_flight (after_verify task r (resumed i w))"
        by (rule single_flight_after_verify [OF r(1) _ r(3)]) (simp add: r(2) AwaitVerify)
      then show ?thesis using Verify_settled Some AwaitVerify by simp
    qed (use assms Verify_settled Some in simp_all)
  qed
next
  case (Reset_settled i r)
  show ?thesis
  proof (cases "nth_opt (suspended w) i")
    case None
    then show ?thesis using assms Reset_settled by simp
  next
    case (Some c)
    note r = single_flight_resumed [OF assms Some]
    show ?thesis
    proof (cases c)
      case (AwaitReset task)
      have "single_flight (finish (resumed i w))"
        by (rule single_flight_finish [OF r(1)]) (simp add: r(2) AwaitReset)
      then show ?thesis using Reset_settled Some AwaitReset by (simp add: after_reset_def)
    qed (use assms Reset_settled Some in simp_all)
  qed
qed

lemma single_flight_run:
  "single_flight w \<Longrightarrow> single_flight (run m evs w)"
  unfolding run_def by (induction evs arbitrary: w) (simp_all add: single_flight_step)

lemma single_flight_init: "single_flight (init ids)"
proof -
  have "single_flight (idle\<lparr>pendingQueue := ids\<rparr>)"
    by (simp add: single_flight_iff idle_def)
  then show ?thesis
    by (cases "ids = []") (simp_all add: init_def Let_def single_flight_kickProcessing)
qed

lemma agent_of_length: "length (agent_of c) \<le> 1"
  by (cases c) simp_all

lemma single_flight_children: "single_flight w \<Longrightarrow> length (children w) \<le> 1"
  using agent_of_length by (auto simp: single_flight_iff)

lemma single_flight_suspended: "single_flight w \<Longrightarrow> length (suspended w) \<le> 1"
  by (auto simp: single_flight_iff)

lemma finish_rekicks:
  assumes "\<not> stopped w" and "pendingQueue w \<noteq> []"
  shows "finish w = w\<lparr>currentTaskId := None, processing := True,
                       suspended := suspended w @ [AwaitNext],
                       effects := effects w @ [Fetch GET_next]\<rparr>"
  using assms by (simp add: finish_def completed_def kickProcessing_def Let_def)

lemma finish_idles:
  assumes "\<not> stopped w" and "pendingQueue w = []"
  shows "finish w = w\<lparr>currentTaskId := None, processing := False\<rparr>"
  using assms by (simp add: finish_def completed_def kickProcessing_def Let_def)

text \<open>
  Claim C6. In every state the watcher reaches from its start, under any events in any
  order, at most one agent process is running and at most one call of \<open>kickProcessing\<close>
  is waiting. A call of \<open>kickProcessing\<close> while \<open>processing\<close> is set changes nothing: it
  sends no request and spawns nothing. Every way \<open>processTask\<close> ends is followed by the
  same end of \<open>kickProcessing\<close> (\<open>finish\<close>): the task found in \<open>review\<close> after the agent's
  exit; the task found in any status but \<open>in_progress\<close>, or not found, or the request for
  it rejected; the answer, whatever it is, to the reset of a task the agent left
  \<open>in_progress\<close> (such a task is first reset to \<open>pending\<close>, and the call waits for the
  answer); and a claim request that is rejected. There \<open>currentTaskId\<close> and \<open>processing\<close>
  are cleared and, when the watcher is not stopped, the call looks at \<open>pendingQueue\<close>
  again: when it is not empty the next fetch goes out at once and \<open>processing\<close> is set
  again, and only when it is empty does the watcher go idle. A stopped watcher goes idle.
\<close>

theorem single_flight_dispatch:
  "length (children (run maxRetries evs (init ids))) \<le> 1 \<and>
   length (suspended (run maxRetries evs (init ids))) \<le> 1 \<and>
   (processing w \<longrightarrow> kickProcessing w = w) \<and>
   (nth_opt (suspended w) i = Some (AwaitVerify task) \<and> status updated = ''review'' \<longrightarrow>
      step maxRetries (Verify_settled i (Responded code (TaskJson updated))) w = finish (resumed i w)) \<and>
   (\<not> stopped w \<and> pendingQueue w \<noteq> [] \<longrightarrow>
      finish w = w\<lparr>currentTaskId := None, processing := True,
                     suspended := suspended w @ [AwaitNext],
                     effects := effects w @ [Fetch GET_next]\<rparr>) \<and>
   (\<not> stopped w \<and> pendingQueue w = [] \<longrightarrow>
      finish w = w\<lparr>currentTaskId := None, processing := False\<rparr>) \<and>
   (stopped w \<longrightarrow> finish w = w\<lparr>currentTaskId := None, processing := False\<rparr>) \<and>
   (nth_opt (suspended w) i = Some (AwaitVerify task) \<and>
    (\<forall>c u. verified = Responded c (TaskJson u) \<longrightarrow> status u \<noteq> ''in_progress'') \<longrightarrow>
      step maxRetries (Verify_settled i verified) w = finish (resumed i w)) \<and>
   (nth_opt (suspended w) i = Some (AwaitVerify task) \<and> status updated = ''in_progress'' \<longrightarrow>
      step maxRetries (Verify_settled i (Responded code (TaskJson updated))) w
        = (resumed i w)\<lparr>effects := effects (resumed i w) @ [Fetch (PUT_status (task_id task) ''pending'')],
                         suspended := suspended (resumed i w) @ [AwaitReset task]\<rparr>) \<and>
   (nth_opt (suspended w) i = Some (AwaitReset task) \<longrightarrow>
      step maxRetries (Reset_settled i reset) w = finish (resumed i w)) \<and>
   (nth_opt (suspended w) i = Some (AwaitClaim task) \<longrightarrow>
      step maxRetries (Claim_settled i (Failed msg)) w = finish (resumed i w))"
proof -
  have s: "single_flight (run maxRetries evs (init ids))"
    by (rule single_flight_run [OF single_flight_init])
  have a: "length (children (run maxRetries evs (init ids))) \<le> 1"
    by (rule single_flight_children [OF s])
  have b: "length (suspended (run maxRetries evs (init ids))) \<le> 1"
    by (rule single_flight_suspended [OF s])
  have c: "processing w \<longrightarrow> kickProcessing w = w"
    by (simp add: kickProcessing_def)
  have d: "nth_opt (suspended w) i = Some (AwaitVerify task) \<and> status updated = ''review'' \<longrightarrow>
      step maxRetries (Verify_settled i (Responded code (TaskJson updated))) w = finish (resumed i w)"
    by (simp add: after_verify_def fetchJSON_def)
  have e: "\<not> stopped w \<and> pendingQueue w \<noteq> [] \<longrightarrow>
      finish w = w\<lparr>currentTaskId := None, processing := True,
                     suspended := suspended w @ [AwaitNext],
                     effects := effects w @ [Fetch GET_next]\<rparr>"
    using finish_rekicks by blast
  have f: "\<not> stopped w \<and> pendingQueue w = [] \<longrightarrow>
      finish w = w\<lparr>currentTaskId := None, processing := False\<rparr>"
    using finish_idles by blast
  have g: "stopped w \<longrightarrow> finish w = w\<lparr>currentTaskId := None, processing := False\<rparr>"
    by (simp add: finish_def completed_def Let_def)
  have h: "nth_opt (suspended w) i = Some (AwaitVerify task) \<and>
      (\<forall>c u. verified = Responded c (TaskJson u) \<longrightarrow> status u \<noteq> ''in_progress'') \<longrightarrow>
      step maxRetries (Verify_settled i verified) w = finish (resumed i w)"
    by (simp add: after_verify_def fetchJSON_def split: net.splits body.splits)
  have j: "nth_opt (suspended w) i = Some (AwaitVerify task) \<and> status updated = ''in_progress'' \<longrightarrow>
      step maxRetries (Verify_settled i (Responded code (TaskJson updated))) w
        = (resumed i w)\<lparr>effects := effects (resumed i w) @ [Fetch (PUT_status (task_id task) ''pending'')],
                         suspended := suspended (resumed i w) @ [AwaitReset task]\<rparr>"
    by (simp add: after_verify_def fetchJSON_def)
  have k: "nth_opt (suspended w) i = Some (AwaitReset task) \<longrightarrow>
      step maxRetries (Reset_settled i reset) w = finish (resumed i w)"
    by (simp add: after_reset_def)
  have l: "nth_opt (suspended w) i = Some (AwaitClaim task) \<longrightarrow>
      step maxRetries (Claim_settled i (Failed msg)) w = finish (resumed i w)"
    by (simp add: after_claim_def fetchJSON_def finish_def)
  show ?thesis using a b c d e f g h j k l by (intro conjI)
qed

theorem single_flight_dispatch_witness:
  "length (children agent_running) \<le> 1 \<and> children agent_running = [''t1''] \<and>
   processing agent_running \<and> kickProcessing agent_running = agent_running \<and>
   nth_opt (suspended agent_exited) 0 = Some (AwaitVerify (example_task ''t1'' 10 ''medium'')) \<and>
   step 2 (Verify_settled 0 (Responded 200
        (TaskJson ((example_task ''t1'' 10 ''medium'')\<lparr>status := ''review''\<rparr>)))) agent_exited
     = agent_exited\<lparr>currentTaskId := None, suspended := [AwaitNext],
                     effects := effects agent_exited @ [Fetch GET_next]\<rparr> \<and>
   \<not> stopped idle \<and> pendingQueue idle = [] \<and> finish idle = idle \<and>
   stopped (agent_exited\<lparr>stopped := True\<rparr>) \<and>
   finish (agent_exited\<lparr>stopped := True\<rparr>)
     = agent_exited\<lparr>stopped := True, currentTaskId := None, processing := False\<rparr> \<and>
   step 2 (Verify_settled 0 (Failed ''socket hang up'')) agent_exited
     = agent_exited\<lparr>currentTaskId := None, suspended := [AwaitNext],
                     effects := effects agent_exited @ [Fetch GET_next]\<rparr> \<and>
   step 2 (Verify_settled 0 (Responded 200
        (TaskJson ((example_task ''t1'' 10 ''medium'')\<lparr>status := ''done''\<rparr>)))) agent_exited
     = agent_exited\<lparr>currentTaskId := None, suspended := [AwaitNext],
                     effects := effects agent_exited @ [Fetch GET_next]\<rparr> \<and>
   agent_crashed
     = agent_exited\<lparr>suspended := [AwaitReset (example_task ''t1'' 10 ''medium'')],
                     effects := effects agent_exited @ [Fetch (PUT_status ''t1'' ''pending'')]\<rparr> \<and>
   nth_opt (suspended agent_crashed) 0 = Some (AwaitReset (example_task ''t1'' 10 ''medium'')) \<and>
   pendingQueue agent_crashed = [''t2''] \<and>
   step 2 (Reset_settled 0 (Failed ''socket hang up'')) agent_crashed
     = agent_crashed\<lparr>currentTaskId := None, suspended := [AwaitNext],
                      effects := effects agent_crashed @ [Fetch GET_next]\<rparr> \<and>
   nth_opt (suspended agent_claiming) 0 = Some (AwaitClaim (example_task ''t1'' 10 ''medium'')) \<and>
   pendingQueue agent_claiming = [''t2''] \<and> children agent_claiming = [] \<and>
   step 2 (Claim_settled 0 (Failed ''socket hang up'')) agent_claiming
     = agent_claiming\<lparr>currentTaskId := None, suspended := [AwaitNext],
                       effects := effects agent_claiming @ [Fetch GET_next]\<rparr>"
proof -
  let ?t = "example_task ''t1'' 10 ''medium''"
  let ?u = "?t\<lparr>status := ''review''\<rparr>"
  let ?evs = "[Next_settled 0 (Responded 200 (TaskJson ?t)), Claim_settled 0 (Responded 200 (TaskJson ?t))]"
  let ?next = "\<lambda>w. w\<lparr>currentTaskId := None, suspended := [AwaitNext],
                       effects := effects w @ [Fetch GET_next]\<rparr>"
  note th = single_flight_dispatch [where maxRetries = 2 and task = ?t and code = 200 and i = 0
      and evs = ?evs and ids = "[''t1'', ''t2'']" and msg = "''socket hang up''"
      and reset = "Failed ''socket hang up''"]
  note th1 = th [where updated = ?u and verified = "Failed ''socket hang up''"]
  have a: "length (children agent_running) \<le> 1"
    using th1 [of agent_running] by (simp add: agent_running_def)
  have p: "processing agent_running" by (simp add: agent_running_state)
  have k: "kickProcessing agent_running = agent_running"
    using th1 [of agent_running] p by blast
  have n: "nth_opt (suspended agent_exited) 0 = Some (AwaitVerify ?t)"
    by (simp add: agent_exited_state)
  have r: "\<not> stopped (resumed 0 agent_exited) \<and> pendingQueue (resumed 0 agent_exited) \<noteq> []"
    by (simp add: agent_exited_state resumed_def)
  have f: "finish (resumed 0 agent_exited)
             = (resumed 0 agent_exited)\<lparr>currentTaskId := None, processing := True,
                  suspended := suspended (resumed 0 agent_exited) @ [AwaitNext],
                  effects := effects (resumed 0 agent_exited) @ [Fetch GET_next]\<rparr>"
    using th1 [of "resumed 0 agent_exited"] r by blast
  have f': "finish (resumed 0 agent_exited) = ?next agent_exited"
    unfolding f by (simp add: agent_exited_state resumed_def)
  have "step 2 (Verify_settled 0 (Responded 200 (TaskJson ?u))) agent_exited
             = finish (resumed 0 agent_exited)"
    using th1 [of agent_exited] n by simp
  then have s1: "step 2 (Verify_settled 0 (Responded 200 (TaskJson ?u))) agent_exited = ?next agent_exited"
    by (simp only: f')
  have i: "\<not> stopped idle \<and> pendingQueue idle = []" by (simp add: idle_def)
  have "finish idle = idle\<lparr>currentTaskId := None, processing := False\<rparr>"
    using th1 [of idle] i by blast
  then have fi: "finish idle = idle" by (simp add: idle_def)
  have c: "children agent_running = [''t1'']" by (simp add: agent_running_state)
  have st: "stopped (agent_exited\<lparr>stopped := True\<rparr>)" by simp
  have fs: "finish (agent_exited\<lparr>stopped := True\<rparr>)
      = agent_exited\<lparr>stopped := True, currentTaskId := None, processing := False\<rparr>"
    using th1 [of "agent_exited\<lparr>stopped := True\<rparr>"] st by blast
  have "step 2 (Verify_settled 0 (Failed ''socket hang up'')) agent_exited
             = finish (resumed 0 agent_exited)"
    using th1 [of agent_exited] n by simp
  then have s2: "step 2 (Verify_settled 0 (Failed ''socket hang up'')) agent_exited = ?next agent_exited"
    by (simp only: f')
  let ?d = "?t\<lparr>status := ''done''\<rparr>"
  have "step 2 (Verify_settled 0 (Responded 200 (TaskJson ?d))) agent_exited
             = finish (resumed 0 agent_exited)"
    using th [where updated = ?u and verified = "Responded 200 (TaskJson ?d)" and w = agent_exited] n
    by simp
  then have s3: "step 2 (Verify_settled 0 (Responded 200 (TaskJson ?d))) agent_exited = ?next agent_exited"
    by (simp only: f')
  let ?p = "?t\<lparr>status := ''in_progress''\<rparr>"
  have "step 2 (Verify_settled 0 (Responded 200 (TaskJson ?p))) agent_exited
          = (resumed 0 agent_exited)\<lparr>effects := effects (resumed 0 agent_exited) @
                 [Fetch (PUT_status (task_id ?t) ''pending'')],
               suspended := suspended (resumed 0 agent_exited) @ [AwaitReset ?t]\<rparr>"
    using th [where updated = ?p and verified = "Failed ''socket hang up''" and w = agent_exited] n
    by simp
  then have cr: "agent_crashed
      = agent_exited\<lparr>suspended := [AwaitReset ?t],
                      effects := effects agent_exited @ [Fetch (PUT_status ''t1'' ''pending'')]\<rparr>"
    unfolding agent_crashed_def by (simp add: agent_exited_state resumed_def example_task_fields)
  have nc: "nth_opt (suspended agent_crashed) 0 = Some (AwaitReset ?t)"
    by (simp add: cr)
  have qc: "pendingQueue agent_crashed = [''t2'']"
    by (simp add: cr agent_exited_state)
  have rc: "\<not> stopped (resumed 0 agent_crashed) \<and> pendingQueue (resumed 0 agent_crashed) \<noteq> []"
    by (simp add: cr agent_exited_state resumed_def)
  have fc: "finish (resumed 0 agent_crashed)
             = (resumed 0 agent_crashed)\<lparr>currentTaskId := None, processing := True,
                  suspended := suspended (resumed 0 agent_crashed) @ [AwaitNext],
                  effects := effects (resumed 0 agent_crashed) @ [Fetch GET_next]\<rparr>"
    using th1 [of "resumed 0 agent_crashed"] rc by blast
  have fc': "finish (resumed 0 agent_crashed) = ?next agent_crashed"
    unfolding fc by (simp add: cr agent_exited_state resumed_def)
  have "step 2 (Reset_settled 0 (Failed ''socket hang up'')) agent_crashed
          = finish (resumed 0 agent_crashed)"
    using th1 [of agent_crashed] nc by simp
  then have s4: "step 2 (Reset_settled 0 (Failed ''socket hang up'')) agent_crashed = ?next agent_crashed"
    by (simp only: fc')
  have ng: "nth_opt (suspended agent_claiming) 0 = Some (AwaitClaim ?t)"
    by (simp add: agent_claiming_state)
  have qg: "pendingQueue agent_claiming = [''t2''] \<and> children agent_claiming = []"
    by (simp add: agent_claiming_state)
  have rg: "\<not> stopped (resumed 0 agent_claiming) \<and> pendingQueue (resumed 0 agent_claiming) \<noteq> []"
    by (simp add: agent_claiming_state resumed_def)
  have fg: "finish (resumed 0 agent_claiming)
             = (resumed 0 agent_claiming)\<lparr>currentTaskId := None, processing := True,
                  suspended := suspended (resumed 0 agent_claiming) @ [AwaitNext],
                  effects := effects (resumed 0 agent_claiming) @ [Fetch GET_next]\<rparr>"
    using th1 [of "resumed 0 agent_claiming"] rg by blast
  have fg': "finish (resumed 0 agent_claiming) = ?next agent_claiming"
    unfolding fg by (simp add: agent_claiming_state resumed_def)
  have "step 2 (Claim_settled 0 (Failed ''socket hang up'')) agent_claiming
          = finish (resumed 0 agent_claiming)"
    using th1 [of agent_claiming] ng by simp
  then have s5: "step 2 (Claim_settled 0 (Failed ''socket hang up'')) agent_claiming = ?next agent_claiming"
    by (simp only: fg')
  show ?thesis
    using a c p k n s1 i fi st fs s2 s3 cr nc qc s4 ng qg s5 by (intro conjI) simp_all
qed

subsection \<open>Tasks at the retry limit\<close>

lemma nth_opt_mem: "nth_opt as i = Some a \<Longrightarrow> a \<in> set as"
  using nth_opt_Some [of as i a] by auto

lemma list_all_take: "list_all P as \<Longrightarrow> list_all P (take i as)"
  by (auto simp: list_all_iff dest: in_set_takeD)

lemma list_all_drop: "list_all P as \<Longrightarrow> list_all P (drop i as)"
  by (auto simp: list_all_iff dest: in_set_dropD)

lemma reached_max_retriesI:
  "0 < m \<Longrightarrow> m \<le> int (length (attempts task)) \<Longrightarrow> reached_max_retries m task"
  by (simp add: reached_max_retries_def)

lemma after_next_skips:
  assumes "reached_max_retries m task"
  shows "after_next m (Responded code (TaskJson task)) w
           = w\<lparr>pendingQueue := filter (\<lambda>qid. qid \<noteq> task_id task) (pendingQueue w),
                processing := False\<rparr>"
  using assms by (simp add: after_next_def fetchJSON_def returned_def)

lemma step_skips:
  assumes "reached_max_retries m task"
    and "nth_opt (suspended w) i = Some AwaitNext"
  shows "step m (Next_settled i (Responded code (TaskJson task))) w
           = (resumed i w)\<lparr>pendingQueue := filter (\<lambda>qid. qid \<noteq> task_id task) (pendingQueue w),
                            processing := False\<rparr>"
  using assms(2) by (simp add: after_next_skips [OF assms(1)] resumed_def)

lemma untouched_kickProcessing: "untouched tid w \<Longrightarrow> untouched tid (kickProcessing w)"
  by (simp add: untouched_def kickProcessing_def)

lemma untouched_enqueue: "untouched tid w \<Longrightarrow> untouched tid (enqueue t w)"
proof -
  assume u: "untouched tid w"
  then have "untouched tid (w\<lparr>pendingQueue := pendingQueue w @ [t]\<rparr>)"
    by (simp add: untouched_def)
  then show ?thesis using u by (simp add: enqueue_def untouched_kickProcessing)
qed

lemma untouched_fold_enqueue:
  "untouched tid w \<Longrightarrow> untouched tid (fold (\<lambda>task. enqueue (task_id task)) ts w)"
  by (induction ts arbitrary: w) (simp_all add: untouched_enqueue)

lemma untouched_returned: "untouched tid w \<Longrightarrow> untouched tid (returned w)"
  by (simp add: untouched_def returned_def)

lemma untouched_completed: "untouched tid w \<Longrightarrow> untouched tid (completed w)"
proof -
  assume u: "untouched tid w"
  then have "untouched tid (w\<lparr>processing := False\<rparr>)" by (simp add: untouched_def)
  then show ?thesis by (simp add: completed_def Let_def untouched_kickProcessing)
qed

lemma untouched_finish: "untouched tid w \<Longrightarrow> untouched tid (finish w)"
proof -
  assume u: "untouched tid w"
  then have "untouched tid (w\<lparr>currentTaskId := None\<rparr>)" by (simp add: untouched_def)
  then show ?thesis unfolding finish_def by (rule untouched_completed)
qed

lemma untouched_resumed: "untouched tid w \<Longrightarrow> untouched tid (resumed i w)"
  by (simp add: untouched_def resumed_def list_all_take list_all_drop)

lemma untouched_cont:
  "untouched tid w \<Longrightarrow> nth_opt (suspended w) i = Some c \<Longrightarrow> cont_task c \<noteq> Some tid"
  using nth_opt_mem [of "suspended w" i c] by (auto simp: untouched_def list_all_iff)

lemma untouched_after_next:
  assumes "0 < m" and "over_limit_in m tid (Next_settled i r)" and "untouched tid w"
  shows "untouched tid (after_next m r w)"
proof (cases r)
  case (Failed msg)
  have "untouched tid (w\<lparr>timers := Suc (timers w)\<rparr>)" using assms(3) by (simp add: untouched_def)
  then show ?thesis
    using Failed by (simp add: after_next_def fetchJSON_def retry_later_def untouched_returned)
next
  case (Responded code b)
  have t: "untouched tid (retry_later w)"
  proof -
    have "untouched tid (w\<lparr>timers := Suc (timers w)\<rparr>)" using assms(3) by (simp add: untouched_def)
    then show ?thesis by (simp add: retry_later_def untouched_returned)
  qed
  show ?thesis
  proof (cases b)
    case (TaskJson task)
    let ?w = "w\<lparr>pendingQueue := filter (\<lambda>qid. qid \<noteq> task_id task) (pendingQueue w)\<rparr>"
    have f: "untouched tid ?w" using assms(3) by (simp add: untouched_def)
    show ?thesis
    proof (cases "reached_max_retries m task")
      case True
      then show ?thesis
        using Responded TaskJson f
        by (simp add: after_next_def fetchJSON_def untouched_returned)
    next
      case False
      then have "\<not> m \<le> int (length (attempts task))"
        using assms(1) by (simp add: reached_max_retries_def)
      then have ne: "task_id task \<noteq> tid"
        using assms(2) Responded TaskJson by auto
      have "untouched tid (processTask task ?w)"
        using f ne by (simp add: untouched_def processTask_def)
      then show ?thesis
        using Responded TaskJson False by (simp add: after_next_def fetchJSON_def)
    qed
  next
    case NullJson
    have "untouched tid (w\<lparr>pendingQueue := []\<rparr>)" using assms(3) by (simp add: untouched_def)
    then show ?thesis
      using Responded NullJson by (simp add: after_next_def fetchJSON_def untouched_returned)
  next
    case (ErrorJson e)
    then show ?thesis using Responded t by (simp add: after_next_def fetchJSON_def)
  next
    case (EntriesJson es)
    then show ?thesis using Responded t by (simp add: after_next_def fetchJSON_def)
  qed
qed

lemma untouched_after_claim:
  assumes "untouched tid w" and "task_id task \<noteq> tid"
  shows "untouched tid (after_claim task r w)"
proof (cases r)
  case (Failed msg)
  have "untouched tid (w\<lparr>currentTaskId := None\<rparr>)" using assms(1) by (simp add: untouched_def)
  then show ?thesis using Failed by (simp add: after_claim_def fetchJSON_def untouched_completed)
next
  case (Responded code b)
  then show ?thesis using assms by (simp add: after_claim_def fetchJSON_def untouched_def)
qed

lemma untouched_after_exit:
  assumes "untouched tid w" and "task_id task \<noteq> tid"
  shows "untouched tid (after_exit closed task w)"
  using assms by (auto simp: after_exit_def untouched_def dest: notin_set_remove1)

lemma untouched_after_verify:
  assumes "untouched tid w" and "task_id task \<noteq> tid"
  shows "untouched tid (after_verify task r w)"
proof -
  have f: "untouched tid (finish w)" by (rule untouched_finish [OF assms(1)])
  have g: "untouched tid (w\<lparr>effects := effects w @ [Fetch (PUT_status (task_id task) ''pending'')],
                  suspended := suspended w @ [AwaitReset task]\<rparr>)"
    using assms by (simp add: untouched_def)
  show ?thesis
    using f g by (simp add: after_verify_def fetchJSON_def split: net.splits body.splits)
qed

lemma untouched_step:
  assumes pos: "0 < m" and lim: "over_limit_in m tid ev" and inv: "untouched tid w"
  shows "untouched tid (step m ev w)"
proof (cases ev)
  case (Sse_task_created task)
  then show ?thesis using assms by (simp add: untouched_enqueue)
next
  case (Sse_task_updated task)
  then show ?thesis using assms by (simp add: untouched_enqueue)
next
  case (Sse_task_deleted d)
  then show ?thesis using inv by (simp add: untouched_def)
next
  case (Sse_task_cancel d)
  then show ?thesis using inv by (auto simp: untouched_def)
next
  case (Resynced tasks)
  then show ?thesis using assms by (simp add: untouched_fold_enqueue)
next
  case Timer_fired
  show ?thesis
  proof (cases "timers w")
    case 0
    then show ?thesis using inv Timer_fired by simp
  next
    case (Suc n)
    have "untouched tid (w\<lparr>timers := n\<rparr>)" using inv by (simp add: untouched_def)
    then show ?thesis using Timer_fired Suc by (simp add: untouched_kickProcessing)
  qed
next
  case Stop
  then show ?thesis using inv by (auto simp: untouched_def split: option.splits)
next
  case (Next_settled i r)
  show ?thesis
  proof (cases "nth_opt (suspended w) i")
    case None
    then show ?thesis using inv Next_settled by simp
  next
    case (Some c)
    show ?thesis
    proof (cases c)
      case AwaitNext
      have "untouched tid (after_next m r (resumed i w))"
        using lim Next_settled by (intro untouched_after_next [OF pos _ untouched_resumed [OF inv]]) simp
      then show ?thesis using Next_settled Some AwaitNext by simp
    qed (use inv Next_settled Some in simp_all)
  qed
next
  case (Claim_settled i r)
  show ?thesis
  proof (cases "nth_opt (suspended w) i")
    case None
    then show ?thesis using inv Claim_settled by simp
  next
    case (Some c)
    show ?thesis
    proof (cases c)
      case (AwaitClaim task)
      have ne: "task_id task \<noteq> tid"
        using untouched_cont [OF inv Some] AwaitClaim by simp
      have "untouched tid (after_claim task r (resumed i w))"
        by (rule untouched_after_claim [OF untouched_resumed [OF inv] ne])
      then show ?thesis using Claim_settled Some AwaitClaim by simp
    qed (use inv Claim_settled Some in simp_all)
  qed
next
  case (Child_closed i)
  show ?thesis
  proof (cases "nth_opt (suspended w) i")
    case None
    then show ?thesis using inv Child_closed by simp
  next
    case (Some c)
    show ?thesis
    proof (cases c)
      case (AwaitExit task)
      have ne: "task_id task \<noteq> tid"
        using untouched_cont [OF inv Some] AwaitExit by simp
      have "untouched tid (after_exit True task (resumed i w))"
        by (rule untouched_after_exit [OF untouched_resumed [OF inv] ne])
      then show ?thesis using Child_closed Some AwaitExit by simp
    qed (use inv Child_closed Some in simp_all)
  qed
next
  case (Child_error i)
  show ?thesis
  proof (cases "nth_opt (suspended w) i")
    case None
    then show ?thesis using inv Child_error by simp
  next
    case (Some c)
    show ?thesis
    proof (cases c)
      case (AwaitExit task)
      have ne: "task_id task \<noteq> tid"
        using untouched_cont [OF inv Some] AwaitExit by simp
      have "untouched tid (after_exit False task (resumed i w))"
        by (rule untouched_after_exit [OF untouched_resumed [OF inv] ne])
      then show ?thesis using Child_error Some AwaitExit by simp
    qed (use inv Child_error Some in simp_all)
  qed
next
  case (Verify_settled i r)
  show ?thesis
  proof (cases "nth_opt (suspended w) i")
    case None
    then show ?thesis using inv Verify_settled by simp
  next
    case (Some c)
    show ?thesis
    proof (cases c)
      case (AwaitVerify task)
      have ne: "task_id task \<noteq> tid"
        using untouched_cont [OF inv Some] AwaitVerify by simp
      have "untouched tid (after_verify task r (resumed i w))"
        by (rule untouched_after_verify [OF untouched_resumed [OF inv] ne])
      then show ?thesis using Verify_settled Some AwaitVerify by simp
    qed (use inv Verify_settled Some in simp_all)
  qed
next
  case (Reset_settled i r)
  show ?thesis
  proof (cases "nth_opt (suspended w) i")
    case None
    then show ?thesis using inv Reset_settled by simp
  next
    case (Some c)
    show ?thesis
    proof (cases c)
      case (AwaitReset task)
      have "untouched tid (finish (resumed i w))"
        by (rule untouched_finish [OF untouched_resumed [OF inv]])
      then show ?thesis using Reset_settled Some AwaitReset by (simp add: after_reset_def)
    qed (use inv Reset_settled Some in simp_all)
  qed
qed

lemma untouched_run:
  "0 < m \<Longrightarrow> \<forall>ev \<in> set evs. over_limit_in m tid ev \<Longrightarrow> untouched tid w \<Longrightarrow>
   untouched tid (run m evs w)"
  unfolding run_def by (induction evs arbitrary: w) (simp_all add: untouched_step)

lemma untouched_init: "untouched tid (init ids)"
proof -
  have "untouched tid (idle\<lparr>pendingQueue := ids\<rparr>)"
    by (simp add: untouched_def idle_def)
  then show ?thesis
    by (cases "ids = []") (simp_all add: init_def Let_def untouched_kickProcessing)
qed

lemma get_next_reads_only:
  assumes "read_primary (files srv) = Inr q"
  shows "snd (get_next now srv) = srv"
proof -
  have r: "read now (files srv) = (Inr q, files srv)"
    by (rule read_parsed [OF assms])
  show ?thesis
    by (simp add: get_next_def getNextPending_def r Let_def split: list.splits)
qed

text \<open>
  Claim C7. Let the retry limit be positive. When the fetch of the next task brings a
  task with at least that many attempts, the waiting call ends there: it removes the id
  from \<open>pendingQueue\<close>, clears \<open>processing\<close>, and does nothing else, so it sends no
  request and spawns nothing. The one request of the cycle, the fetch of the next task,
  leaves a server whose queue file parses exactly as it was, so the task stays \<open>pending\<close>
  there. And in every run of the watcher in which each response carrying a given task
  shows it at the limit, no effect ever concerns that task: no claim, no agent, no
  request for it, no reset.
\<close>

theorem over_limit_task_never_dispatched:
  assumes "0 < maxRetries"
  shows "(maxRetries \<le> int (length (attempts task)) \<and> nth_opt (suspended w) i = Some AwaitNext \<longrightarrow>
            step maxRetries (Next_settled i (Responded code (TaskJson task))) w
              = (resumed i w)\<lparr>pendingQueue := filter (\<lambda>qid. qid \<noteq> task_id task) (pendingQueue w),
                               processing := False\<rparr> \<and>
            effects (step maxRetries (Next_settled i (Responded code (TaskJson task))) w) = effects w \<and>
            children (step maxRetries (Next_settled i (Responded code (TaskJson task))) w) = children w \<and>
            task_id task \<notin> set (pendingQueue (step maxRetries (Next_settled i (Responded code (TaskJson task))) w))) \<and>
         (read_primary (files srv) = Inr q \<longrightarrow> snd (get_next now srv) = srv) \<and>
         ((\<forall>ev \<in> set evs. over_limit_in maxRetries tid ev) \<longrightarrow>
            list_all (\<lambda>e. \<not> touches tid e) (effects (run maxRetries evs (init ids))) \<and>
            tid \<notin> set (children (run maxRetries evs (init ids))))"
proof (intro conjI impI)
  assume a: "maxRetries \<le> int (length (attempts task)) \<and> nth_opt (suspended w) i = Some AwaitNext"
  then have s: "step maxRetries (Next_settled i (Responded code (TaskJson task))) w
              = (resumed i w)\<lparr>pendingQueue := filter (\<lambda>qid. qid \<noteq> task_id task) (pendingQueue w),
                               processing := False\<rparr>"
    using step_skips [OF reached_max_retriesI [OF assms]] by blast
  show "step maxRetries (Next_settled i (Responded code (TaskJson task))) w
              = (resumed i w)\<lparr>pendingQueue := filter (\<lambda>qid. qid \<noteq> task_id task) (pendingQueue w),
                               processing := False\<rparr>"
    by (rule s)
  show "effects (step maxRetries (Next_settled i (Responded code (TaskJson task))) w) = effects w"
    by (simp only: s) (simp add: resumed_def)
  show "children (step maxRetries (Next_settled i (Responded code (TaskJson task))) w) = children w"
    by (simp only: s) (simp add: resumed_def)
  show "task_id task \<notin> set (pendingQueue (step maxRetries (Next_settled i (Responded code (TaskJson task))) w))"
    by (simp only: s) simp
next
  assume "read_primary (files srv) = Inr q"
  then show "snd (get_next now srv) = srv" by (rule get_next_reads_only)
next
  assume a: "\<forall>ev \<in> set evs. over_limit_in maxRetries tid ev"
  have u: "untouched tid (run maxRetries evs (init ids))"
    by (rule untouched_run [OF assms a untouched_init])
  show "list_all (\<lambda>e. \<not> touches tid e) (effects (run maxRetries evs (init ids)))"
    using u by (simp add: untouched_def)
  show "tid \<notin> set (children (run maxRetries evs (init ids)))"
    using u by (simp add: untouched_def)
qed

lemma init_after_offer:
  "step 2 (Next_settled 0 (Responded 200 (TaskJson retried))) (init [''t1'', ''t2''])
     = \<lparr>pendingQueue = [''t2''], processing = False, currentProcess = None,
        currentTaskId = None, stopped = False, suspended = [], children = [],
        timers = 0, effects = [Fetch GET_next]\<rparr>"
  by (simp add: init_two after_next_def fetchJSON_def returned_def resumed_def retried_fields
      reached_max_retries_def)

theorem over_limit_task_never_dispatched_witness:
  "(2::int) \<le> int (length (attempts retried)) \<and>
   nth_opt (suspended (init [''t1'', ''t2''])) 0 = Some AwaitNext \<and>
   effects (step 2 (Next_settled 0 (Responded 200 (TaskJson retried))) (init [''t1'', ''t2'']))
     = effects (init [''t1'', ''t2'']) \<and>
   pendingQueue (step 2 (Next_settled 0 (Responded 200 (TaskJson retried))) (init [''t1'', ''t2''])) = [''t2''] \<and>
   read_primary (files blocked_server) = Inr blocked_queue \<and>
   snd (get_next 20 blocked_server) = blocked_server \<and>
   list_all (over_limit_in 2 ''t1'') offered_twice \<and>
   list_all (\<lambda>e. \<not> touches ''t1'' e) (effects (run 2 offered_twice (init [''t1'', ''t2'']))) \<and>
   ''t1'' \<notin> set (children (run 2 offered_twice (init [''t1'', ''t2''])))"
proof -
  have pos: "(0::int) < 2" by simp
  note th = over_limit_task_never_dispatched [OF pos, where task = retried
      and w = "init [''t1'', ''t2'']" and i = 0 and code = 200 and evs = offered_twice
      and tid = "''t1''" and ids = "[''t1'', ''t2'']" and srv = blocked_server
      and q = blocked_queue and now = 20]
  have l: "(2::int) \<le> int (length (attempts retried))" by (simp add: retried_fields)
  have rp: "read_primary (files blocked_server) = Inr blocked_queue"
    by (simp add: blocked_server_def read_primary_Json)
  have gn: "snd (get_next 20 blocked_server) = blocked_server"
    using th rp by blast
  have n: "nth_opt (suspended (init [''t1'', ''t2''])) 0 = Some AwaitNext" by (simp add: init_two)
  have o: "list_all (over_limit_in 2 ''t1'') offered_twice"
    by (simp add: offered_twice_def retried_fields)
  then have o': "\<forall>ev \<in> set offered_twice. over_limit_in 2 ''t1'' ev" by (simp add: list_all_iff)
  have e: "effects (step 2 (Next_settled 0 (Responded 200 (TaskJson retried))) (init [''t1'', ''t2'']))
     = effects (init [''t1'', ''t2''])"
    using th l n by blast
  have q: "pendingQueue (step 2 (Next_settled 0 (Responded 200 (TaskJson retried))) (init [''t1'', ''t2''])) = [''t2'']"
    unfolding init_after_offer by simp
  have g: "list_all (\<lambda>e. \<not> touches ''t1'' e) (effects (run 2 offered_twice (init [''t1'', ''t2'']))) \<and>
     ''t1'' \<notin> set (children (run 2 offered_twice (init [''t1'', ''t2''])))"
    using th o' by blast
  show ?thesis using l n e q rp gn o g by (intro conjI) simp_all
qed

subsection \<open>A task at the limit at the head of the queue\<close>

lemma nothing_dispatched_kickProcessing:
  "nothing_dispatched w \<Longrightarrow> nothing_dispatched (kickProcessing w)"
  by (simp add: nothing_dispatched_def kickProcessing_def)

lemma nothing_dispatched_enqueue: "nothing_dispatched w \<Longrightarrow> nothing_dispatched (enqueue t w)"
proof -
  assume u: "nothing_dispatched w"
  then have "nothing_dispatched (w\<lparr>pendingQueue := pendingQueue w @ [t]\<rparr>)"
    by (simp add: nothing_dispatched_def)
  then show ?thesis using u by (simp add: enqueue_def nothing_dispatched_kickProcessing)
qed

lemma nothing_dispatched_fold_enqueue:
  "nothing_dispatched w \<Longrightarrow> nothing_dispatched (fold (\<lambda>task. enqueue (task_id task)) ts w)"
  by (induction ts arbitrary: w) (simp_all add: nothing_dispatched_enqueue)

lemma nothing_dispatched_resumed: "nothing_dispatched w \<Longrightarrow> nothing_dispatched (resumed i w)"
  by (simp add: nothing_dispatched_def resumed_def list_all_take list_all_drop)

lemma nothing_dispatched_cont:
  "nothing_dispatched w \<Longrightarrow> nth_opt (suspended w) i = Some c \<Longrightarrow> c = AwaitNext"
  using nth_opt_mem [of "suspended w" i c] by (auto simp: nothing_dispatched_def list_all_iff)

lemma nothing_dispatched_after_next:
  assumes "head_blocked m (Next_settled i r)" and "nothing_dispatched w"
  shows "nothing_dispatched (after_next m r w)"
proof (cases r)
  case (Failed msg)
  then show ?thesis
    using assms(2)
    by (simp add: after_next_def fetchJSON_def retry_later_def returned_def nothing_dispatched_def)
next
  case (Responded code b)
  then obtain task where b: "b = TaskJson task" and l: "reached_max_retries m task"
    using assms(1) by (cases b) simp_all
  show ?thesis
    using assms(2) by (simp add: Responded b after_next_skips [OF l] nothing_dispatched_def)
qed

lemma nothing_dispatched_step:
  assumes lim: "head_blocked m ev" and inv: "nothing_dispatched w"
  shows "nothing_dispatched (step m ev w)"
proof (cases ev)
  case (Sse_task_created task)
  then show ?thesis using assms by (simp add: nothing_dispatched_enqueue)
next
  case (Sse_task_updated task)
  then show ?thesis using assms by (simp add: nothing_dispatched_enqueue)
next
  case (Sse_task_deleted d)
  then show ?thesis using inv by (simp add: nothing_dispatched_def)
next
  case (Sse_task_cancel d)
  then show ?thesis using inv by (auto simp: nothing_dispatched_def)
next
  case (Resynced tasks)
  then show ?thesis using assms by (simp add: nothing_dispatched_fold_enqueue)
next
  case Timer_fired
  show ?thesis
  proof (cases "timers w")
    case 0
    then show ?thesis using inv Timer_fired by simp
  next
    case (Suc n)
    have "nothing_dispatched (w\<lparr>timers := n\<rparr>)" using inv by (simp add: nothing_dispatched_def)
    then show ?thesis using Timer_fired Suc by (simp add: nothing_dispatched_kickProcessing)
  qed
next
  case Stop
  then show ?thesis using inv by (auto simp: nothing_dispatched_def split: option.splits)
next
  case (Next_settled i r)
  show ?thesis
  proof (cases "nth_opt (suspended w) i")
    case None
    then show ?thesis using inv Next_settled by simp
  next
    case (Some c)
    show ?thesis
    proof (cases c)
      case AwaitNext
      have "nothing_dispatched (after_next m r (resumed i w))"
        using lim Next_settled by (intro nothing_dispatched_after_next [OF _ nothing_dispatched_resumed [OF inv]]) simp
      then show ?thesis using Next_settled Some AwaitNext by simp
    qed (use inv Next_settled Some in simp_all)
  qed
next
  case (Claim_settled i r)
  show ?thesis
  proof (cases "nth_opt (suspended w) i")
    case None
    then show ?thesis using inv Claim_settled by simp
  next
    case (Some c)
    show ?thesis
    proof (cases c)
      case (AwaitClaim task)
      show ?thesis using nothing_dispatched_cont [OF inv Some] AwaitClaim by simp
    qed (use inv Claim_settled Some in simp_all)
  qed
next
  case (Child_closed i)
  show ?thesis
  proof (cases "nth_opt (suspended w) i")
    case None
    then show ?thesis using inv Child_closed by simp
  next
    case (Some c)
    show ?thesis
    proof (cases c)
      case (AwaitExit task)
      show ?thesis using nothing_dispatched_cont [OF inv Some] AwaitExit by simp
    qed (use inv Child_closed Some in simp_all)
  qed
next
  case (Child_error i)
  show ?thesis
  proof (cases "nth_opt (suspended w) i")
    case None
    then show ?thesis using inv Child_error by simp
  next
    case (Some c)
    show ?thesis
    proof (cases c)
      case (AwaitExit task)
      show ?thesis using nothing_dispatched_cont [OF inv Some] AwaitExit by simp
    qed (use inv Child_error Some in simp_all)
  qed
next
  case (Verify_settled i r)
  show ?thesis
  proof (cases "nth_opt (suspended w) i")
    case None
    then show ?thesis using inv Verify_settled by simp
  next
    case (Some c)
    show ?thesis
    proof (cases c)
      case (AwaitVerify task)
      show ?thesis using nothing_dispatched_cont [OF inv Some] AwaitVerify by simp
    qed (use inv Verify_settled Some in simp_all)
  qed
next
  case (Reset_settled i r)
  show ?thesis
  proof (cases "nth_opt (suspended w) i")
    case None
    then show ?thesis using inv Reset_settled by simp
  next
    case (Some c)
    show ?thesis
    proof (cases c)
      case (AwaitReset task)
      show ?thesis using nothing_dispatched_cont [OF inv Some] AwaitReset by simp
    qed (use inv Reset_settled Some in simp_all)
  qed
qed

lemma nothing_dispatched_run:
  "\<forall>ev \<in> set evs. head_blocked m ev \<Longrightarrow> nothing_dispatched w \<Longrightarrow>
   nothing_dispatched (run m evs w)"
  unfolding run_def by (induction evs arbitrary: w) (simp_all add: nothing_dispatched_step)

lemma nothing_dispatched_init: "nothing_dispatched (init ids)"
proof -
  have "nothing_dispatched (idle\<lparr>pendingQueue := ids\<rparr>)"
    by (simp add: nothing_dispatched_def idle_def)
  then show ?thesis
    by (cases "ids = []") (simp_all add: init_def Let_def nothing_dispatched_kickProcessing)
qed

lemma get_next_body:
  "fst (getNextPending now (files srv)) = Inr (Some task) \<Longrightarrow> fst (get_next now srv) = (200, TaskJson task)"
  by (cases "getNextPending now (files srv)") (simp add: get_next_def)

text \<open>
  Claim C10. The route the watcher asks for its next task answers with the one task
  \<open>getNextPending\<close> selects. When that task has reached the retry limit (the limit is
  positive and the task has at least that many attempts), a dispatch cycle of an idle
  watcher (the call of \<open>kickProcessing\<close> and the response to its fetch) ends with the
  task's id removed from \<open>pendingQueue\<close> and with nothing else done but the fetch: no
  claim, no agent, and no further call even though other ids may remain in
  \<open>pendingQueue\<close>. And in every run of the watcher in which every response to that
  fetch carries a task that has reached the limit, the watcher never does anything but
  fetch the next task: it runs no task at all.
\<close>

theorem blocked_head_blocks_dispatch:
  "(fst (getNextPending now (files srv)) = Inr (Some task) \<longrightarrow>
      fst (get_next now srv) = (200, TaskJson task)) \<and>
   (reached_max_retries maxRetries task \<and>
    \<not> processing w \<and> \<not> stopped w \<and> pendingQueue w \<noteq> [] \<and> suspended w = [] \<longrightarrow>
      step maxRetries (Next_settled 0 (Responded 200 (TaskJson task))) (kickProcessing w)
        = w\<lparr>pendingQueue := filter (\<lambda>qid. qid \<noteq> task_id task) (pendingQueue w),
             effects := effects w @ [Fetch GET_next]\<rparr>) \<and>
   ((\<forall>ev \<in> set evs. head_blocked maxRetries ev) \<longrightarrow>
      list_all (\<lambda>e. e = Fetch GET_next) (effects (run maxRetries evs (init ids))) \<and>
      children (run maxRetries evs (init ids)) = [])"
proof (intro conjI impI)
  assume "fst (getNextPending now (files srv)) = Inr (Some task)"
  then show "fst (get_next now srv) = (200, TaskJson task)" by (rule get_next_body)
next
  assume a: "reached_max_retries maxRetries task \<and>
    \<not> processing w \<and> \<not> stopped w \<and> pendingQueue w \<noteq> [] \<and> suspended w = []"
  then have l: "reached_max_retries maxRetries task" by simp
  let ?k = "w\<lparr>processing := True, suspended := suspended w @ [AwaitNext],
               effects := effects w @ [Fetch GET_next]\<rparr>"
  have k: "kickProcessing w = ?k" using a by (simp add: kickProcessing_def)
  show "step maxRetries (Next_settled 0 (Responded 200 (TaskJson task))) (kickProcessing w)
              = w\<lparr>pendingQueue := filter (\<lambda>qid. qid \<noteq> task_id task) (pendingQueue w),
                   effects := effects w @ [Fetch GET_next]\<rparr>"
    using a by (simp add: k after_next_skips [OF l] resumed_def)
next
  assume a: "\<forall>ev \<in> set evs. head_blocked maxRetries ev"
  have u: "nothing_dispatched (run maxRetries evs (init ids))"
    by (rule nothing_dispatched_run [OF a nothing_dispatched_init])
  show "list_all (\<lambda>e. e = Fetch GET_next) (effects (run maxRetries evs (init ids)))"
    using u by (simp add: nothing_dispatched_def)
  show "children (run maxRetries evs (init ids)) = []"
    using u by (simp add: nothing_dispatched_def)
qed

lemma blocked_next:
  "fst (getNextPending 20 (files blocked_server)) = Inr (Some retried)"
proof -
  have p: "read_primary (files blocked_server) = Inr blocked_queue"
    by (simp add: blocked_server_def read_primary_Json)
  have r: "read 20 (files blocked_server) = (Inr blocked_queue, files blocked_server)"
    by (rule read_parsed [OF p])
  show ?thesis
    by (simp add: getNextPending_result [OF r] blocked_queue_def example_task_fields retried_fields
        CompareArrayElements_def compare_tasks_def subtract_def PRIORITY_ORDER_def)
qed

theorem blocked_head_blocks_dispatch_witness:
  "fst (getNextPending 20 (files blocked_server)) = Inr (Some retried) \<and>
   fst (get_next 20 blocked_server) = (200, TaskJson retried) \<and>
   reached_max_retries 2 retried \<and>
   pendingQueue (idle\<lparr>pendingQueue := [''t1'', ''t2'']\<rparr>) \<noteq> [] \<and>
   step 2 (Next_settled 0 (Responded 200 (TaskJson retried)))
       (kickProcessing (idle\<lparr>pendingQueue := [''t1'', ''t2'']\<rparr>))
     = idle\<lparr>pendingQueue := [''t2''], effects := [Fetch GET_next]\<rparr> \<and>
   list_all (head_blocked 2) offered_twice \<and>
   list_all (\<lambda>e. e = Fetch GET_next) (effects (run 2 offered_twice (init [''t1'', ''t2'']))) \<and>
   children (run 2 offered_twice (init [''t1'', ''t2''])) = []"
proof -
  let ?w = "idle\<lparr>pendingQueue := [''t1'', ''t2'']\<rparr>"
  note th = blocked_head_blocks_dispatch [where now = 20 and srv = blocked_server
      and maxRetries = 2 and task = retried and w = ?w and evs = offered_twice
      and ids = "[''t1'', ''t2'']"]
  have g: "fst (get_next 20 blocked_server) = (200, TaskJson retried)"
    using th blocked_next by blast
  have l: "reached_max_retries 2 retried" by (simp add: reached_max_retries_def retried_fields)
  have i: "\<not> processing ?w \<and> \<not> stopped ?w \<and> pendingQueue ?w \<noteq> [] \<and> suspended ?w = []"
    by (simp add: idle_def)
  have s: "step 2 (Next_settled 0 (Responded 200 (TaskJson retried))) (kickProcessing ?w)
     = ?w\<lparr>pendingQueue := filter (\<lambda>qid. qid \<noteq> task_id retried) (pendingQueue ?w),
           effects := effects ?w @ [Fetch GET_next]\<rparr>"
    using th l i by blast
  have s': "step 2 (Next_settled 0 (Responded 200 (TaskJson retried))) (kickProcessing ?w)
     = idle\<lparr>pendingQueue := [''t2''], effects := [Fetch GET_next]\<rparr>"
    unfolding s by (simp add: idle_def retried_fields)
  have o: "list_all (head_blocked 2) offered_twice"
    by (simp add: offered_twice_def retried_fields reached_max_retries_def)
  then have o': "\<forall>ev \<in> set offered_twice. head_blocked 2 ev" by (simp add: list_all_iff)
  have r: "list_all (\<lambda>e. e = Fetch GET_next) (effects (run 2 offered_twice (init [''t1'', ''t2'']))) \<and>
     children (run 2 offered_twice (init [''t1'', ''t2''])) = []"
    using th o' by blast
  show ?thesis using blocked_next g l i s' o r by (intro conjI) simp_all
qed

subsection \<open>A claim the server refuses\<close>

lemma after_claim_resolved:
  "after_claim task (Responded code b) w
     = w\<lparr>currentProcess := Some (task_id task), children := children w @ [task_id task],
          effects := effects w @ [Spawn (task_id task)],
          suspended := suspended w @ [AwaitExit task]\<rparr>"
  by (simp add: after_claim_def fetchJSON_def)

text \<open>
  When the claim request is rejected (the socket fails or the request times out),
  \<open>processTask\<close> gives the task up: it spawns nothing, clears \<open>currentTaskId\<close>, and
  \<open>kickProcessing\<close> goes on to its end, where at most the next fetch is sent.
\<close>

theorem rejected_claim_abandons_task:
  "after_claim task (Failed msg) w = completed (w\<lparr>currentTaskId := None\<rparr>) \<and>
   children (after_claim task (Failed msg) w) = children w \<and>
   currentProcess (after_claim task (Failed msg) w) = currentProcess w \<and>
   (effects (after_claim task (Failed msg) w) = effects w \<or>
    effects (after_claim task (Failed msg) w) = effects w @ [Fetch GET_next])"
  by (simp add: after_claim_def fetchJSON_def completed_def kickProcessing_def Let_def)

text \<open>
  Claim C8 at a failing input. The task \<open>gone\<close> was pending when the watcher fetched the
  next task and is no longer in the queue when the claim arrives (the server holds \<open>t1\<close>
  only). The update route answers the claim with 404 and changes nothing; \<open>fetchJSON\<close>
  resolves with the body of that answer; \<open>processTask\<close> takes the claim as made and
  spawns the agent.
\<close>

theorem refused_claim_spawns_agent:
  "put_task 20 ''gone'' [F_status ''in_progress''] fresh = ((404, ErrorJson ''Task not found''), fresh) \<and>
   fetchJSON (Responded 404 (ErrorJson ''Task not found'')) = Inr (ErrorJson ''Task not found'') \<and>
   effects (run 2 [Next_settled 0 (Responded 200 (TaskJson (example_task ''gone'' 10 ''medium''))),
                   Claim_settled 0 (Responded 404 (ErrorJson ''Task not found''))]
              (init [''gone'']))
     = [Fetch GET_next, Fetch (PUT_status ''gone'' ''in_progress''), Spawn ''gone''] \<and>
   children (run 2 [Next_settled 0 (Responded 200 (TaskJson (example_task ''gone'' 10 ''medium''))),
                    Claim_settled 0 (Responded 404 (ErrorJson ''Task not found''))]
               (init [''gone'']))
     = [''gone'']"
proof -
  have p: "read_primary (files fresh) = Inr one_task_queue"
    by (simp add: fresh_def one_task_disk_def read_primary_Json)
  have r: "read 20 (files fresh) = (Inr one_task_queue, files fresh)"
    by (rule read_parsed [OF p])
  have u: "updateTask 20 ''gone'' [F_status ''in_progress''] (files fresh) = (Inr None, files fresh)"
    by (simp add: updateTask_def r one_task_queue_def example_task_fields)
  have a: "put_task 20 ''gone'' [F_status ''in_progress''] fresh
             = ((404, ErrorJson ''Task not found''), fresh)"
    by (simp add: put_task_def u VALID_STATUSES_def)
  have i: "init [''gone''] =
     \<lparr>pendingQueue = [''gone''], processing = True, currentProcess = None,
      currentTaskId = None, stopped = False, suspended = [AwaitNext], children = [],
      timers = 0, effects = [Fetch GET_next]\<rparr>"
    by (simp add: init_def idle_def kickProcessing_def Let_def)
  have w: "run 2 [Next_settled 0 (Responded 200 (TaskJson (example_task ''gone'' 10 ''medium''))),
                   Claim_settled 0 (Responded 404 (ErrorJson ''Task not found''))]
              (init [''gone''])
        = \<lparr>pendingQueue = [], processing = True, currentProcess = Some ''gone'',
           currentTaskId = Some ''gone'', stopped = False,
           suspended = [AwaitExit (example_task ''gone'' 10 ''medium'')], children = [''gone''],
           timers = 0,
           effects = [Fetch GET_next, Fetch (PUT_status ''gone'' ''in_progress''), Spawn ''gone'']\<rparr>"
    by (simp add: run_def i after_next_def after_claim_def fetchJSON_def processTask_def
        resumed_def example_task_fields reached_max_retries_def)
  show ?thesis using a by (simp add: w fetchJSON_def)
qed

end
